theory Spec2Isabelle
  imports Main
begin

section \<open>Mesh router (NearbyConnectionsService)\<close>

text \<open>
  The wire message of the mesh, as \<open>handleIncomingMessage\<close> destructures it:
  \<open>{type, payload, messageId, hops, timestamp, senderId}\<close>, plus the field
  \<open>forwardedBy\<close> that a relay adds. The payload is opaque to the router and is kept
  as a string. JavaScript numbers that hold hop counts and epoch milliseconds are
  integers here; a well-formed wire message carries both fields, so the default
  \<open>hops = 0\<close> of the destructuring pattern never applies.
\<close>

record wire_message =
  w_type :: string
  w_payload :: string
  w_messageId :: string
  hops :: int
  w_timestamp :: int
  senderId :: string
  forwardedBy :: "string option"

text \<open>The value \<open>messageCache.set\<close> stores under a message id.\<close>

record cache_entry =
  ce_timestamp :: int
  ce_hops :: int
  ce_type :: string
  ce_payload :: string

text \<open>The argument every registered handler is called with.\<close>

record notification =
  n_type :: string
  n_payload :: string
  n_messageId :: string
  n_hops :: int
  n_senderId :: string

text \<open>
  The fields of the service object. A handler is a closure of the caller; the model
  knows it by a number, and calling it is an effect. \<open>connectedPeers\<close> is never
  written by the service and is left out.
\<close>

record router =
  deviceId :: string
  messageCache :: "string \<rightharpoonup> cache_entry"
  messageHandlers :: "nat list"
  maxHops :: int
  ttl :: int

text \<open>
  What a call does to the outside: it calls a handler, posts a message on the
  broadcast channel, or sets a timer whose callback posts a message. The timer's
  delay, \<open>100 + Math.random() * 200\<close> milliseconds, is a floating-point value and is
  not part of the effect.
\<close>

datatype effect =
  Notify nat notification
  | PostMessage wire_message
  | ScheduleForward wire_message

text \<open>The constructor: five hops at most, five minutes to live.\<close>

definition new_router :: "string \<Rightarrow> router" where
  "new_router dev =
     \<lparr>deviceId = dev, messageCache = Map.empty, messageHandlers = [],
      maxHops = 5, ttl = 300000\<rparr>"

text \<open>\<open>onMessage\<close> appends the handler to the list.\<close>

definition onMessage :: "nat \<Rightarrow> router \<Rightarrow> router" where
  "onMessage h r = r\<lparr>messageHandlers := messageHandlers r @ [h]\<rparr>"

text \<open>
  \<open>forwardMessage\<close>: the hop count goes up by one; nothing is scheduled when the
  new count has reached \<open>maxHops\<close>; otherwise a timer is set that posts the copy.
\<close>

definition forwardMessage :: "router \<Rightarrow> wire_message \<Rightarrow> effect list" where
  "forwardMessage r originalData =
     (let newHops = hops originalData + 1 in
      if newHops \<ge> maxHops r then []
      else [ScheduleForward
              (originalData\<lparr>hops := newHops, forwardedBy := Some (deviceId r)\<rparr>)])"

text \<open>
  The four checks of \<open>handleIncomingMessage\<close>, in the order of the source: own
  sender, known message id, hop limit, age. \<open>now\<close> is the reading of \<open>Date.now()\<close>.
\<close>

definition accepts :: "int \<Rightarrow> router \<Rightarrow> wire_message \<Rightarrow> bool" where
  "accepts now r data =
     (senderId data \<noteq> deviceId r
      \<and> messageCache r (w_messageId data) = None
      \<and> \<not> hops data \<ge> maxHops r
      \<and> \<not> now - w_timestamp data > ttl r)"

definition notification_of :: "wire_message \<Rightarrow> notification" where
  "notification_of data =
     \<lparr>n_type = w_type data, n_payload = w_payload data,
      n_messageId = w_messageId data, n_hops = hops data,
      n_senderId = senderId data\<rparr>"

definition handleIncomingMessage ::
  "int \<Rightarrow> wire_message \<Rightarrow> router \<Rightarrow> router \<times> effect list" where
  "handleIncomingMessage now data r =
     (if senderId data = deviceId r then (r, [])
      else if messageCache r (w_messageId data) \<noteq> None then (r, [])
      else if hops data \<ge> maxHops r then (r, [])
      else if now - w_timestamp data > ttl r then (r, [])
      else
        (r\<lparr>messageCache := (messageCache r)(w_messageId data \<mapsto>
              \<lparr>ce_timestamp = w_timestamp data, ce_hops = hops data,
               ce_type = w_type data, ce_payload = w_payload data\<rparr>)\<rparr>,
         map (\<lambda>h. Notify h (notification_of data)) (messageHandlers r)
           @ forwardMessage r data))"

text \<open>Decimal rendering of a number inside a template string.\<close>

fun dec_nat :: "nat \<Rightarrow> string" where
  "dec_nat n =
     (if n < 10 then [char_of (48 + n)]
      else dec_nat (n div 10) @ [char_of (48 + n mod 10)])"

definition dec_int :: "int \<Rightarrow> string" where
  "dec_int i = (if i < 0 then CHR ''-'' # dec_nat (nat (- i)) else dec_nat (nat i))"

text \<open>
  \<open>broadcastSOS\<close> and \<open>broadcastChat\<close> read the clock twice, once for the message
  id and once for the timestamp. \<open>sos_message\<close> and \<open>chat_message\<close> are the object
  \<open>message\<close> each of them builds; it is posted on the channel and its id is
  returned. Neither function touches \<open>messageCache\<close>.
\<close>

definition sos_message :: "int \<Rightarrow> int \<Rightarrow> string \<Rightarrow> router \<Rightarrow> wire_message" where
  "sos_message now_id now_ts sosData r =
     \<lparr>w_type = ''SOS_BROADCAST'', w_payload = sosData,
      w_messageId = ''sos_'' @ deviceId r @ ''_'' @ dec_int now_id,
      hops = 0, w_timestamp = now_ts, senderId = deviceId r, forwardedBy = None\<rparr>"

definition broadcastSOS ::
  "int \<Rightarrow> int \<Rightarrow> string \<Rightarrow> router \<Rightarrow> router \<times> effect list \<times> string" where
  "broadcastSOS now_id now_ts sosData r =
     (let message = sos_message now_id now_ts sosData r
      in (r, [PostMessage message], w_messageId message))"

definition chat_message :: "int \<Rightarrow> int \<Rightarrow> string \<Rightarrow> router \<Rightarrow> wire_message" where
  "chat_message now_id now_ts chatData r =
     \<lparr>w_type = ''CHAT_BROADCAST'', w_payload = chatData,
      w_messageId = ''chat_'' @ deviceId r @ ''_'' @ dec_int now_id,
      hops = 0, w_timestamp = now_ts, senderId = deviceId r, forwardedBy = None\<rparr>"

definition broadcastChat ::
  "int \<Rightarrow> int \<Rightarrow> string \<Rightarrow> router \<Rightarrow> router \<times> effect list \<times> string" where
  "broadcastChat now_id now_ts chatData r =
     (let message = chat_message now_id now_ts chatData r
      in (r, [PostMessage message], w_messageId message))"

text \<open>\<open>cleanupOldMessages\<close> drops the cache entries older than \<open>ttl\<close>.\<close>

definition cleanupOldMessages :: "int \<Rightarrow> router \<Rightarrow> router" where
  "cleanupOldMessages now r =
     r\<lparr>messageCache := (\<lambda>k. case messageCache r k of
                                None \<Rightarrow> None
                              | Some e \<Rightarrow> if now - ce_timestamp e > ttl r then None
                                          else Some e)\<rparr>"

text \<open>The effects that are handler calls, and those that are scheduled forwards.\<close>

fun is_notify :: "effect \<Rightarrow> bool" where
  "is_notify (Notify h n) = True"
| "is_notify (PostMessage m) = False"
| "is_notify (ScheduleForward m) = False"

fun is_forward :: "effect \<Rightarrow> bool" where
  "is_forward (Notify h n) = False"
| "is_forward (PostMessage m) = False"
| "is_forward (ScheduleForward m) = True"

section \<open>Persistent outbox (OfflineStorageService)\<close>

text \<open>
  The record \<open>storeMessage\<close> builds, with the property \<open>syncedAt\<close> that
  \<open>markAsSynced\<close> adds later. The payload is opaque and kept as a string.
\<close>

record stored =
  messageId :: string
  mtype :: string
  payload :: string
  timestamp :: int
  synced :: bool
  retryCount :: nat
  syncedAt :: "int option"

text \<open>The argument of \<open>storeMessage\<close>; the caller may leave \<open>messageId\<close> out.\<close>

record outbox_message =
  om_messageId :: "string option"
  om_type :: string
  om_payload :: string

text \<open>
  A rejected promise. \<open>StorageError\<close> is a failed platform request (an exception of
  \<open>localStorage.setItem\<close>, an \<open>onerror\<close> of an IndexedDB request),
  \<open>ConstraintError\<close> is the unique index on \<open>messageId\<close> refusing a second record
  with the same id, \<open>UploadError\<close> is a rejected write to the remote database.
\<close>

datatype error = StorageError | ConstraintError | UploadError

text \<open>
  The service and what it persists. \<open>localStorage\<close> is the array stored as JSON
  under the key \<open>google_sos_pending\<close> (the empty list when the key is absent);
  the service reads back only what it wrote there itself, so reading and parsing
  succeed and the \<open>catch\<close> of \<open>getLocalStorageMessages\<close> is not reached.
  \<open>objectStore\<close> is the IndexedDB object store \<open>pendingMessages\<close>, from the
  primary key \<open>id\<close> to the record; \<open>keyGenerator\<close> is the last number the
  \<open>autoIncrement\<close> generator gave out, and the service stores under no other key.

  \<open>booleanKeys\<close> describes the IndexedDB engine: whether it accepts a Boolean as a
  key. The Indexed Database API does not: a key is a number, a date, a string, a
  binary or an array of keys, and a record whose index key path evaluates to anything
  else has no entry in that index. On a browser that follows the standard the field
  is \<open>False\<close>.
\<close>

record storage =
  useLocalStorage :: bool
  booleanKeys :: bool
  localStorage :: "stored list"
  objectStore :: "nat \<rightharpoonup> stored"
  keyGenerator :: nat

text \<open>
  A fresh browser profile, and \<open>init\<close>: the constructor sets
  \<open>useLocalStorage = false\<close>, and \<open>init\<close> sets it when the database cannot be
  opened. Constructing the service again after a restart runs \<open>init\<close> again over
  whatever the two stores hold.
\<close>

definition new_storage :: "bool \<Rightarrow> storage" where
  "new_storage bk =
     \<lparr>useLocalStorage = False, booleanKeys = bk, localStorage = [],
      objectStore = Map.empty, keyGenerator = 0\<rparr>"

definition init :: "bool \<Rightarrow> storage \<Rightarrow> storage" where
  "init idb_opens st = st\<lparr>useLocalStorage := \<not> idb_opens\<rparr>"

text \<open>
  The records of the object store with their keys, in the order of the keys, which
  is the order an object store and a cursor over it give them in.
\<close>

definition entries :: "storage \<Rightarrow> (nat \<times> stored) list" where
  "entries st =
     List.map_filter (\<lambda>k. map_option (Pair k) (objectStore st k))
       [1..<Suc (keyGenerator st)]"

text \<open>The records of the store the service is using, in stored order.\<close>

definition records :: "storage \<Rightarrow> stored list" where
  "records st =
     (if useLocalStorage st then localStorage st else map snd (entries st))"

text \<open>
  The record of \<open>storeMessage\<close>. \<open>message.messageId || ...\<close> takes the generated
  id also when the given one is the empty string; \<open>fresh\<close> is that generated id
  (\<open>msg_\<close>, the clock, \<open>_\<close>, \<open>Math.random()\<close>), \<open>now\<close> the clock.
\<close>

definition new_record :: "int \<Rightarrow> string \<Rightarrow> outbox_message \<Rightarrow> stored" where
  "new_record now fresh message =
     \<lparr>messageId = (case om_messageId message of
                       None \<Rightarrow> fresh
                     | Some i \<Rightarrow> if i = [] then fresh else i),
      mtype = om_type message,
      payload = om_payload message,
      timestamp = now,
      synced = False,
      retryCount = 0,
      syncedAt = None\<rparr>"

text \<open>What \<open>storeMessage\<close> resolves with: the new primary key, or the message id.\<close>

datatype store_result = Key nat | Id string

text \<open>
  In every operation below, \<open>ok\<close> says whether the platform carries out the request
  (\<open>setItem\<close> does not throw, the IndexedDB request does not fail).

  \<open>objectStore.add\<close>: the generator gives the next key; the unique index on
  \<open>messageId\<close> refuses a record whose id is already stored, and the failed
  transaction leaves the store as it was.
\<close>

definition storeInIndexedDB :: "bool \<Rightarrow> stored \<Rightarrow> storage \<Rightarrow> error + storage \<times> store_result" where
  "storeInIndexedDB ok record st =
     (if \<not> ok then Inl StorageError
      else if find (\<lambda>(k, r). messageId r = messageId record) (entries st) \<noteq> None
      then Inl ConstraintError
      else Inr (st\<lparr>objectStore := (objectStore st)(Suc (keyGenerator st) \<mapsto> record),
                   keyGenerator := Suc (keyGenerator st)\<rparr>,
                Key (Suc (keyGenerator st))))"

definition getLocalStorageMessages :: "storage \<Rightarrow> stored list" where
  "getLocalStorageMessages st = localStorage st"

definition storeInLocalStorage :: "bool \<Rightarrow> stored \<Rightarrow> storage \<Rightarrow> error + storage \<times> store_result" where
  "storeInLocalStorage ok record st =
     (let stored = getLocalStorageMessages st @ [record] in
      if ok then Inr (st\<lparr>localStorage := stored\<rparr>, Id (messageId record))
      else Inl StorageError)"

definition storeMessage ::
  "bool \<Rightarrow> int \<Rightarrow> string \<Rightarrow> outbox_message \<Rightarrow> storage \<Rightarrow> error + storage \<times> store_result" where
  "storeMessage ok now fresh message st =
     (let record = new_record now fresh message in
      if useLocalStorage st then storeInLocalStorage ok record st
      else storeInIndexedDB ok record st)"

text \<open>
  The records a cursor opened on the index \<open>synced\<close> without a key range visits:
  the entries of the index, by index key and then by primary key. Every record has a
  Boolean under \<open>synced\<close>, so the index has an entry for a record only on an engine
  that takes Booleans as keys.
\<close>

definition cursor_synced :: "bool \<Rightarrow> (nat \<times> stored) list \<Rightarrow> (nat \<times> stored) list" where
  "cursor_synced bk os =
     (if bk then filter (\<lambda>(k, r). \<not> synced r) os @ filter (\<lambda>(k, r). synced r) os
      else [])"

text \<open>
  \<open>getIndexedDBMessages\<close> walks that cursor and keeps the values whose \<open>synced\<close> is
  \<open>false\<close>.
\<close>

definition getIndexedDBMessages :: "bool \<Rightarrow> storage \<Rightarrow> error + stored list" where
  "getIndexedDBMessages ok st =
     (if ok
      then Inr (map snd (filter (\<lambda>(k, r). synced r = False)
                  (cursor_synced (booleanKeys st) (entries st))))
      else Inl StorageError)"

definition getPendingMessages :: "bool \<Rightarrow> storage \<Rightarrow> error + stored list" where
  "getPendingMessages ok st =
     (if useLocalStorage st
      then Inr (filter (\<lambda>msg. \<not> synced msg) (getLocalStorageMessages st))
      else getIndexedDBMessages ok st)"

text \<open>
  \<open>markSyncedInIndexedDB\<close>: \<open>index.get\<close> on the index \<open>messageId\<close> (strings are
  keys) gives the first record with that id, or nothing; a record found is written
  back under its own key with \<open>synced = true\<close> and \<open>syncedAt\<close> set to the clock,
  whether or not it was synced already. Nothing found resolves without a write.
\<close>

definition markSyncedInIndexedDB :: "bool \<Rightarrow> int \<Rightarrow> string \<Rightarrow> storage \<Rightarrow> error + storage" where
  "markSyncedInIndexedDB ok now mid st =
     (if \<not> ok then Inl StorageError
      else case find (\<lambda>(k, r). messageId r = mid) (entries st) of
             Some (key, record) \<Rightarrow>
               Inr (st\<lparr>objectStore :=
                      (objectStore st)(key \<mapsto> record\<lparr>synced := True, syncedAt := Some now\<rparr>)\<rparr>)
           | None \<Rightarrow> Inr st)"

definition markSyncedInLocalStorage :: "bool \<Rightarrow> int \<Rightarrow> string \<Rightarrow> storage \<Rightarrow> error + storage" where
  "markSyncedInLocalStorage ok now mid st =
     (let updated = map (\<lambda>msg. if messageId msg = mid
                                then msg\<lparr>synced := True, syncedAt := Some now\<rparr>
                                else msg)
                        (getLocalStorageMessages st) in
      if ok then Inr (st\<lparr>localStorage := updated\<rparr>) else Inl StorageError)"

definition markAsSynced :: "bool \<Rightarrow> int \<Rightarrow> string \<Rightarrow> storage \<Rightarrow> error + storage" where
  "markAsSynced ok now mid st =
     (if useLocalStorage st then markSyncedInLocalStorage ok now mid st
      else markSyncedInIndexedDB ok now mid st)"

text \<open>
  \<open>clearSyncedFromIndexedDB\<close> walks the same cursor as \<open>getIndexedDBMessages\<close>
  and deletes every record it visits whose \<open>synced\<close> is \<open>true\<close>.
\<close>

definition clearSyncedFromIndexedDB :: "bool \<Rightarrow> storage \<Rightarrow> error + storage" where
  "clearSyncedFromIndexedDB ok st =
     (if ok
      then Inr (st\<lparr>objectStore :=
                  fold (\<lambda>(k, r) m. if synced r = True then m(k := None) else m)
                       (cursor_synced (booleanKeys st) (entries st))
                       (objectStore st)\<rparr>)
      else Inl StorageError)"

definition clearSyncedMessages :: "bool \<Rightarrow> storage \<Rightarrow> error + storage" where
  "clearSyncedMessages ok st =
     (if useLocalStorage st
      then (let unsynced = filter (\<lambda>msg. \<not> synced msg) (getLocalStorageMessages st) in
            if ok then Inr (st\<lparr>localStorage := unsynced\<rparr>) else Inl StorageError)
      else clearSyncedFromIndexedDB ok st)"

text \<open>
  \<open>Math.min(...xs)\<close>; of no argument it is \<open>Infinity\<close>, which is \<open>None\<close> here.
\<close>

fun math_min :: "int list \<Rightarrow> int option" where
  "math_min [] = None"
| "math_min (x # xs) = (case math_min xs of None \<Rightarrow> Some x | Some m \<Rightarrow> Some (min x m))"

record stats =
  pendingCount :: nat
  storageType :: string
  oldestMessage :: "int option"

definition getStats :: "bool \<Rightarrow> storage \<Rightarrow> error + stats" where
  "getStats ok st =
     (case getPendingMessages ok st of
        Inl e \<Rightarrow> Inl e
      | Inr pending \<Rightarrow>
          Inr \<lparr>pendingCount = length pending,
               storageType = (if useLocalStorage st then ''LocalStorage'' else ''IndexedDB''),
               oldestMessage = (if length pending > 0
                                then math_min (map timestamp pending)
                                else None)\<rparr>)"

text \<open>
  The operations that change the outbox, as data, to speak about sequences of them.
  A rejected operation leaves the store as it was.
\<close>

datatype outbox_op =
  StoreMessage bool int string outbox_message
  | MarkAsSynced bool int string
  | ClearSyncedMessages bool

fun apply_op :: "outbox_op \<Rightarrow> storage \<Rightarrow> storage" where
  "apply_op (StoreMessage ok now fresh message) st =
     (case storeMessage ok now fresh message st of Inl e \<Rightarrow> st | Inr (st', res) \<Rightarrow> st')"
| "apply_op (MarkAsSynced ok now mid) st =
     (case markAsSynced ok now mid st of Inl e \<Rightarrow> st | Inr st' \<Rightarrow> st')"
| "apply_op (ClearSyncedMessages ok) st =
     (case clearSyncedMessages ok st of Inl e \<Rightarrow> st | Inr st' \<Rightarrow> st')"

fun apply_ops :: "outbox_op list \<Rightarrow> storage \<Rightarrow> storage" where
  "apply_ops [] st = st"
| "apply_ops (op # ops) st = apply_ops ops (apply_op op st)"

text \<open>
  \<open>descends r r'\<close>: \<open>r'\<close> is \<open>r\<close>, or \<open>r\<close> marked as synced at some time.
  \<open>enqueued\<close>: the records the enqueue operations of a sequence build, whether or
  not the platform stores them.
\<close>

definition descends :: "stored \<Rightarrow> stored \<Rightarrow> bool" where
  "descends r r' =
     (r' = r \<or> (synced r' \<and> syncedAt r' \<noteq> None
                 \<and> r' = r\<lparr>synced := True, syncedAt := syncedAt r'\<rparr>))"

fun enqueued :: "outbox_op list \<Rightarrow> stored list" where
  "enqueued [] = []"
| "enqueued (StoreMessage ok now fresh message # ops) =
     new_record now fresh message # enqueued ops"
| "enqueued (MarkAsSynced ok now mid # ops) = enqueued ops"
| "enqueued (ClearSyncedMessages ok # ops) = enqueued ops"

text \<open>
  Marking as lists see it: \<open>mark now r\<close> is the record written back,
  \<open>mark_all\<close> changes every record with the id (the \<open>map\<close> of
  \<open>markSyncedInLocalStorage\<close>), \<open>mark_first\<close> only the first one (the record
  \<open>index.get\<close> returns).
\<close>

definition mark :: "int \<Rightarrow> stored \<Rightarrow> stored" where
  "mark now r = r\<lparr>synced := True, syncedAt := Some now\<rparr>"

definition mark_all :: "int \<Rightarrow> string \<Rightarrow> stored list \<Rightarrow> stored list" where
  "mark_all now mid rs = map (\<lambda>r. if messageId r = mid then mark now r else r) rs"

fun mark_first :: "int \<Rightarrow> string \<Rightarrow> stored list \<Rightarrow> stored list" where
  "mark_first now mid [] = []"
| "mark_first now mid (r # rs) =
     (if messageId r = mid then mark now r # rs else r # mark_first now mid rs)"

text \<open>An operation that is an enqueue the platform carries out.\<close>

fun is_enqueue :: "outbox_op \<Rightarrow> bool" where
  "is_enqueue (StoreMessage ok now fresh message) = ok"
| "is_enqueue (MarkAsSynced ok now mid) = False"
| "is_enqueue (ClearSyncedMessages ok) = False"

section \<open>Sync coordinator (SyncManager)\<close>

text \<open>
  The events \<open>notifyListeners\<close> is called with, and what a pass does to the
  outside: it notifies the listeners, and it writes to the remote database
  (\<open>set\<close> under \<open>sos_messages/\<close> and the message id, or \<open>push\<close> under
  \<open>chats/\<close>). A listener that throws is caught inside \<open>notifyListeners\<close>.
\<close>

datatype sync_event =
  Online | Offline | SyncStart
  | SyncProgress nat nat
  | SyncComplete nat nat
  | SyncError

datatype sync_effect =
  Emit sync_event
  | RemoteSet string
  | RemotePush string

record sync_manager =
  isOnline :: bool
  isSyncing :: bool

text \<open>
  What the surroundings decide during one pass: whether the listing of the pending
  records, the remote write for a record, the storage request of \<open>markAsSynced\<close>
  for a record and the final clearing succeed, and the clock when a record is marked.
\<close>

record env =
  list_ok :: bool
  remote_ok :: "stored \<Rightarrow> bool"
  mark_ok :: "stored \<Rightarrow> bool"
  mark_time :: "stored \<Rightarrow> int"
  clear_ok :: bool

text \<open>
  \<open>uploadMessage\<close>: an SOS is \<open>set\<close>, a chat message is \<open>push\<close>ed, any other
  type is logged and the call returns normally without a remote write.
\<close>

definition uploadMessage :: "env \<Rightarrow> stored \<Rightarrow> (error + unit) \<times> sync_effect list" where
  "uploadMessage e message =
     (if mtype message = ''SOS_BROADCAST''
      then (if remote_ok e message then Inr () else Inl UploadError,
            [RemoteSet (messageId message)])
      else if mtype message = ''CHAT_BROADCAST''
      then (if remote_ok e message then Inr () else Inl UploadError,
            [RemotePush (messageId message)])
      else (Inr (), []))"

text \<open>
  The state of the loop over \<open>pendingMessages\<close>: the store, the counters
  \<open>synced\<close> and \<open>failed\<close>, and the effects so far.
\<close>

record batch =
  b_store :: storage
  b_synced :: nat
  b_failed :: nat
  b_effects :: "sync_effect list"

text \<open>
  One turn of the loop: upload, then \<open>markAsSynced\<close>, then count and report
  progress; an exception of either call is caught, counted in \<open>failed\<close>, and the
  loop goes on.
\<close>

definition sync_one :: "env \<Rightarrow> nat \<Rightarrow> stored \<Rightarrow> batch \<Rightarrow> batch" where
  "sync_one e len message b =
     (case uploadMessage e message of
        (Inl err, eff) \<Rightarrow>
          b\<lparr>b_failed := b_failed b + 1, b_effects := b_effects b @ eff\<rparr>
      | (Inr u, eff) \<Rightarrow>
          (case markAsSynced (mark_ok e message) (mark_time e message)
                  (messageId message) (b_store b) of
             Inl err \<Rightarrow>
               b\<lparr>b_failed := b_failed b + 1, b_effects := b_effects b @ eff\<rparr>
           | Inr st' \<Rightarrow>
               b\<lparr>b_store := st',
                 b_synced := b_synced b + 1,
                 b_effects := b_effects b @ eff
                    @ [Emit (SyncProgress (b_synced b + 1) len)]\<rparr>))"

fun sync_batch :: "env \<Rightarrow> nat \<Rightarrow> stored list \<Rightarrow> batch \<Rightarrow> batch" where
  "sync_batch e len [] b = b"
| "sync_batch e len (message # rest) b = sync_batch e len rest (sync_one e len message b)"

text \<open>
  \<open>syncPendingMessages\<close>, run as one step: nothing happens offline or while a pass
  is running; otherwise \<open>sync_start\<close>, the listing, the early return when nothing is
  pending, the loop, the clearing and \<open>sync_complete\<close>; an exception of the listing
  or of the clearing is reported as \<open>sync_error\<close>. \<open>isSyncing\<close> is reset on every
  path that set it.
\<close>

definition syncPendingMessages ::
  "env \<Rightarrow> sync_manager \<times> storage \<Rightarrow> (sync_manager \<times> storage) \<times> sync_effect list" where
  "syncPendingMessages e s =
     (case s of (mgr, st) \<Rightarrow>
        if \<not> isOnline mgr then ((mgr, st), [])
        else if isSyncing mgr then ((mgr, st), [])
        else
          (case getPendingMessages (list_ok e) st of
             Inl err \<Rightarrow>
               ((mgr\<lparr>isSyncing := False\<rparr>, st), [Emit SyncStart, Emit SyncError])
           | Inr pendingMessages \<Rightarrow>
               if length pendingMessages = 0
               then ((mgr\<lparr>isSyncing := False\<rparr>, st), [Emit SyncStart])
               else
                 (let b = sync_batch e (length pendingMessages) pendingMessages
                            \<lparr>b_store = st, b_synced = 0, b_failed = 0,
                             b_effects = [Emit SyncStart]\<rparr>
                  in case clearSyncedMessages (clear_ok e) (b_store b) of
                       Inl err \<Rightarrow>
                         ((mgr\<lparr>isSyncing := False\<rparr>, b_store b),
                          b_effects b @ [Emit SyncError])
                     | Inr st' \<Rightarrow>
                         ((mgr\<lparr>isSyncing := False\<rparr>, st'),
                          b_effects b @ [Emit (SyncComplete (b_synced b) (b_failed b))]))))"

text \<open>Whether a pass handles a record without an exception: upload and marking.\<close>

definition succeeds :: "env \<Rightarrow> stored \<Rightarrow> bool" where
  "succeeds e message =
     ((mtype message = ''SOS_BROADCAST'' \<or> mtype message = ''CHAT_BROADCAST''
         \<longrightarrow> remote_ok e message)
      \<and> mark_ok e message)"

text \<open>The loop of a pass over the records \<open>p\<close>, started on the store \<open>st\<close>.\<close>

definition run_batch :: "env \<Rightarrow> stored list \<Rightarrow> storage \<Rightarrow> batch" where
  "run_batch e p st =
     sync_batch e (length p) p
       \<lparr>b_store = st, b_synced = 0, b_failed = 0, b_effects = [Emit SyncStart]\<rparr>"

section \<open>Rate-limited dispatcher (analyzeSOSWithGemini)\<close>

text \<open>
  What one attempt of \<open>performGeminiRequest\<close> meets inside its \<open>try\<close>: an
  exception (\<open>fetch\<close> rejects, the body is not JSON, the reply has no candidate), a
  reply with \<open>data.error\<close> and its code, or a reply with the text of the first
  candidate.
\<close>

datatype response =
  Throws
  | ErrorReply int
  | TextReply string

text \<open>What the request does to the outside: a \<open>fetch\<close>, or a wait in milliseconds.\<close>

datatype request_event = Fetch | Sleep int

text \<open>
  The loop \<open>while (retries > 0)\<close>. \<open>reply k\<close> is what attempt number \<open>k\<close> meets.
  \<open>parse\<close> stands for the removal of the code fences, \<open>trim\<close> and \<open>JSON.parse\<close>;
  it gives \<open>None\<close> when the function returns \<open>null\<close>, which is also what the
  \<open>catch\<close> returns when parsing throws.
\<close>

function attempts ::
  "(nat \<Rightarrow> response) \<Rightarrow> (string \<Rightarrow> 'r option) \<Rightarrow> int \<Rightarrow> int \<Rightarrow> nat
     \<Rightarrow> 'r option \<times> request_event list" where
  "attempts reply parse retries delay k =
     (if retries > 0
      then (case reply k of
              Throws \<Rightarrow> (None, [Fetch])
            | ErrorReply code \<Rightarrow>
                if code = 429
                then (case attempts reply parse (retries - 1) (delay * 2) (Suc k) of
                        (result, events) \<Rightarrow> (result, Fetch # Sleep delay # events))
                else (None, [Fetch])
            | TextReply textResponse \<Rightarrow> (parse textResponse, [Fetch]))
      else (None, []))"
  by pat_completeness auto
termination
  by (relation "measure (\<lambda>(reply, parse, retries, delay, k). nat retries)") auto

declare attempts.simps [simp del]

text \<open>
  \<open>performGeminiRequest\<close>: building the prompt reads properties of \<open>sosData\<close>
  outside the \<open>try\<close>, so a \<open>null\<close> argument (\<open>None\<close>) rejects the promise; otherwise
  three retries, the first wait 2000 ms.
\<close>

datatype dispatch_error = TypeError

definition performGeminiRequest ::
  "(nat \<Rightarrow> response) \<Rightarrow> (string \<Rightarrow> 'r option) \<Rightarrow> 'a option
     \<Rightarrow> dispatch_error + 'r option \<times> request_event list" where
  "performGeminiRequest reply parse sosData =
     (case sosData of
        None \<Rightarrow> Inl TypeError
      | Some d \<Rightarrow> Inr (attempts reply parse 3 2000 0))"

text \<open>
  A queue entry: the data and the caller's promise, known by a number. The queue
  and the flag are the two globals of the module.
\<close>

record 'a job =
  sosData :: "'a option"
  promise :: nat

record 'a dispatcher =
  requestQueue :: "'a job list"
  isProcessingQueue :: bool

text \<open>
  What \<open>processQueue\<close> does to the outside: the events of the request, resolving a
  promise with a result (\<open>None\<close> is \<open>null\<close>), setting the timer that releases the
  queue. The function never calls \<open>reject\<close>.
\<close>

datatype 'r dispatch_effect =
  Request request_event
  | Resolve nat "'r option"
  | SetTimeout int

definition processQueue ::
  "(nat \<Rightarrow> response) \<Rightarrow> (string \<Rightarrow> 'r option) \<Rightarrow> 'a dispatcher
     \<Rightarrow> 'a dispatcher \<times> 'r dispatch_effect list" where
  "processQueue reply parse d =
     (if isProcessingQueue d \<or> length (requestQueue d) = 0 then (d, [])
      else
        (let j = hd (requestQueue d);
             d' = d\<lparr>requestQueue := tl (requestQueue d), isProcessingQueue := True\<rparr>
         in case performGeminiRequest reply parse (sosData j) of
              Inl err \<Rightarrow> (d', [Resolve (promise j) None, SetTimeout 4000])
            | Inr (result, events) \<Rightarrow>
                (d', map Request events @ [Resolve (promise j) result, SetTimeout 4000])))"

text \<open>
  \<open>analyzeSOSWithGemini\<close> appends the job and calls \<open>processQueue\<close>; the timer's
  callback clears the flag and calls it again.
\<close>

definition analyzeSOSWithGemini ::
  "(nat \<Rightarrow> response) \<Rightarrow> (string \<Rightarrow> 'r option) \<Rightarrow> 'a option \<Rightarrow> nat \<Rightarrow> 'a dispatcher
     \<Rightarrow> 'a dispatcher \<times> 'r dispatch_effect list" where
  "analyzeSOSWithGemini reply parse data p d =
     processQueue reply parse
       (d\<lparr>requestQueue := requestQueue d @ [\<lparr>sosData = data, promise = p\<rparr>]\<rparr>)"

definition timer_fired ::
  "(nat \<Rightarrow> response) \<Rightarrow> (string \<Rightarrow> 'r option) \<Rightarrow> 'a dispatcher
     \<Rightarrow> 'a dispatcher \<times> 'r dispatch_effect list" where
  "timer_fired reply parse d = processQueue reply parse (d\<lparr>isProcessingQueue := False\<rparr>)"

text \<open>The number of fetches among the events of a request.\<close>

definition fetches :: "request_event list \<Rightarrow> nat" where
  "fetches events = length (filter (\<lambda>ev. ev = Fetch) events)"

text \<open>
  What the request returns when an attempt does not meet a rate limit, and the
  events of \<open>n\<close> rate-limited attempts that start with the wait \<open>delay\<close>: a fetch
  and a wait each, the wait doubling.
\<close>

fun outcome :: "(string \<Rightarrow> 'r option) \<Rightarrow> response \<Rightarrow> 'r option" where
  "outcome parse Throws = None"
| "outcome parse (ErrorReply code) = None"
| "outcome parse (TextReply textResponse) = parse textResponse"

fun backoff :: "int \<Rightarrow> nat \<Rightarrow> request_event list" where
  "backoff delay 0 = []"
| "backoff delay (Suc n) = Fetch # Sleep delay # backoff (delay * 2) n"

section \<open>Concrete inputs\<close>

text \<open>
  A router of device \<open>B\<close> with one handler, and a message of device \<open>A\<close> that
  arrives with a given hop count.
\<close>

definition ex_router :: router where
  "ex_router = onMessage 0 (new_router ''B'')"

definition ex_msg :: "int \<Rightarrow> wire_message" where
  "ex_msg h =
     \<lparr>w_type = ''SOS_BROADCAST'', w_payload = ''help'', w_messageId = ''sos_A_1000'',
      hops = h, w_timestamp = 1000, senderId = ''A'', forwardedBy = None\<rparr>"

text \<open>A copy of a message that device \<open>B\<close> broadcast, relayed back to it by \<open>A\<close>.\<close>

definition ex_echo :: wire_message where
  "ex_echo =
     \<lparr>w_type = ''SOS_BROADCAST'', w_payload = ''help'', w_messageId = ''sos_B_1000'',
      hops = 1, w_timestamp = 1000, senderId = ''B'', forwardedBy = Some ''A''\<rparr>"

text \<open>
  An outbox on the LocalStorage fallback and one on IndexedDB of a browser that
  follows the standard, both empty; three SOS messages and the operations that
  enqueue them; a pass in which only the upload of the second one fails.
\<close>

definition ex_ls :: storage where
  "ex_ls = init False (new_storage False)"

definition ex_idb :: storage where
  "ex_idb = init True (new_storage False)"

definition ex_m :: "string \<Rightarrow> outbox_message" where
  "ex_m i = \<lparr>om_messageId = Some i, om_type = ''SOS_BROADCAST'', om_payload = ''help''\<rparr>"

definition ex_r :: "int \<Rightarrow> string \<Rightarrow> stored" where
  "ex_r now i = new_record now ''msg_0_0'' (ex_m i)"

definition ex_enqueue :: "outbox_op list" where
  "ex_enqueue =
     [StoreMessage True 1000 ''msg_0_0'' (ex_m ''A-1''),
      StoreMessage True 2000 ''msg_0_0'' (ex_m ''A-2''),
      StoreMessage True 3000 ''msg_0_0'' (ex_m ''A-3'')]"

definition ex_env :: env where
  "ex_env =
     \<lparr>list_ok = True, remote_ok = (\<lambda>r. messageId r \<noteq> ''A-2''),
      mark_ok = (\<lambda>r. True), mark_time = (\<lambda>r. 9000), clear_ok = True\<rparr>"

text \<open>The three messages enqueued, the first one marked, the outbox compacted.\<close>

definition ex_ops :: "outbox_op list" where
  "ex_ops = ex_enqueue @ [MarkAsSynced True 5000 ''A-1'', ClearSyncedMessages True]"

text \<open>A sync manager that is online and idle.\<close>

definition ex_mgr :: sync_manager where
  "ex_mgr = \<lparr>isOnline = True, isSyncing = False\<rparr>"

text \<open>
  A dispatcher with one job waiting, a service that answers every attempt with a
  rate limit, and one that answers with another error.
\<close>

definition ex_dispatcher :: "string dispatcher" where
  "ex_dispatcher =
     \<lparr>requestQueue = [\<lparr>sosData = Some ''sos'', promise = 1\<rparr>], isProcessingQueue = False\<rparr>"

definition ex_limited :: "nat \<Rightarrow> response" where
  "ex_limited k = ErrorReply 429"

definition ex_broken :: "nat \<Rightarrow> response" where
  "ex_broken k = ErrorReply 500"

definition ex_parse :: "string \<Rightarrow> string option" where
  "ex_parse textResponse = Some textResponse"

lemma accepts_handle:
  "accepts now r data \<Longrightarrow>
     handleIncomingMessage now data r =
       (r\<lparr>messageCache := (messageCache r)(w_messageId data \<mapsto>
             \<lparr>ce_timestamp = w_timestamp data, ce_hops = hops data,
              ce_type = w_type data, ce_payload = w_payload data\<rparr>)\<rparr>,
        map (\<lambda>h. Notify h (notification_of data)) (messageHandlers r)
          @ forwardMessage r data)"
  by (simp add: accepts_def handleIncomingMessage_def)

lemma rejects_handle:
  "\<not> accepts now r data \<Longrightarrow> handleIncomingMessage now data r = (r, [])"
  by (auto simp: accepts_def handleIncomingMessage_def)

section \<open>The router: duplicates, the hop limit, the sender's echo\<close>

text \<open>
  C1, as stated, fails: a relayed copy keeps the \<open>senderId\<close> of the device that
  broadcast the message, so that device receives its own message back from its
  neighbours; it rejects the copy each time, and over two receipts of the same
  message id its handler is called not once but never.
\<close>

theorem receive_twice_counterexample:
  "messageHandlers ex_router = [0]
   \<and> filter is_notify
        (snd (handleIncomingMessage 2000 ex_echo ex_router)
         @ snd (handleIncomingMessage 3000 ex_echo
                 (fst (handleIncomingMessage 2000 ex_echo ex_router)))) = []"
proof -
  have rej: "handleIncomingMessage 2000 ex_echo ex_router = (ex_router, [])"
    by (simp add: handleIncomingMessage_def ex_echo_def ex_router_def onMessage_def
        new_router_def)
  have rej2: "handleIncomingMessage 3000 ex_echo ex_router = (ex_router, [])"
    by (simp add: handleIncomingMessage_def ex_echo_def ex_router_def onMessage_def
        new_router_def)
  have hs: "messageHandlers ex_router = [0]"
    by (simp add: ex_router_def onMessage_def new_router_def)
  from rej rej2 hs show ?thesis by simp
qed

text \<open>
  C1, amended: when the router accepts a message (another device sent it, its id is
  not cached, its hop count is below \<open>maxHops\<close>, it is not older than \<open>ttl\<close>), a
  second receipt of any message with the same id, at any time, changes no router
  state and has no effect; over the two receipts every registered handler is called
  exactly once, and at most one forward is scheduled.
\<close>

theorem receive_twice_fires_once:
  assumes "accepts now1 r d1" and "w_messageId d2 = w_messageId d1"
  shows "handleIncomingMessage now2 d2 (fst (handleIncomingMessage now1 d1 r))
           = (fst (handleIncomingMessage now1 d1 r), [])
         \<and> filter is_notify
             (snd (handleIncomingMessage now1 d1 r)
              @ snd (handleIncomingMessage now2 d2 (fst (handleIncomingMessage now1 d1 r))))
           = map (\<lambda>h. Notify h (notification_of d1)) (messageHandlers r)
         \<and> length (filter is_forward
             (snd (handleIncomingMessage now1 d1 r)
              @ snd (handleIncomingMessage now2 d2 (fst (handleIncomingMessage now1 d1 r)))))
           \<le> 1"
proof -
  let ?r1 = "fst (handleIncomingMessage now1 d1 r)"
  have cached: "messageCache ?r1 (w_messageId d2) \<noteq> None"
    using assms by (simp add: accepts_handle)
  have second: "handleIncomingMessage now2 d2 ?r1 = (?r1, [])"
    using cached by (simp add: handleIncomingMessage_def)
  have ntf: "filter is_notify (snd (handleIncomingMessage now1 d1 r))
               = map (\<lambda>h. Notify h (notification_of d1)) (messageHandlers r)"
    using assms(1)
    by (simp add: accepts_handle forwardMessage_def Let_def filter_map comp_def)
  have fwd: "length (filter is_forward (snd (handleIncomingMessage now1 d1 r))) \<le> 1"
    using assms(1)
    by (simp add: accepts_handle forwardMessage_def Let_def filter_map comp_def)
  from second ntf fwd show ?thesis by simp
qed

theorem receive_twice_fires_once_witness:
  "accepts 2000 ex_router (ex_msg 0)
   \<and> w_messageId (ex_msg 3) = w_messageId (ex_msg 0)
   \<and> handleIncomingMessage 3000 (ex_msg 3)
        (fst (handleIncomingMessage 2000 (ex_msg 0) ex_router))
       = (fst (handleIncomingMessage 2000 (ex_msg 0) ex_router), [])
   \<and> filter is_notify
        (snd (handleIncomingMessage 2000 (ex_msg 0) ex_router)
         @ snd (handleIncomingMessage 3000 (ex_msg 3)
                 (fst (handleIncomingMessage 2000 (ex_msg 0) ex_router))))
       = [Notify 0 (notification_of (ex_msg 0))]"
proof -
  have h: "accepts 2000 ex_router (ex_msg 0)"
    by (simp add: accepts_def ex_msg_def ex_router_def onMessage_def new_router_def)
  have i: "w_messageId (ex_msg 3) = w_messageId (ex_msg 0)"
    by (simp add: ex_msg_def)
  have hs: "messageHandlers ex_router = [0]"
    by (simp add: ex_router_def onMessage_def new_router_def)
  have "filter is_notify
        (snd (handleIncomingMessage 2000 (ex_msg 0) ex_router)
         @ snd (handleIncomingMessage 3000 (ex_msg 3)
                 (fst (handleIncomingMessage 2000 (ex_msg 0) ex_router))))
       = map (\<lambda>h. Notify h (notification_of (ex_msg 0))) (messageHandlers ex_router)"
    using receive_twice_fires_once [OF h i, of 3000] by blast
  then have n: "filter is_notify
        (snd (handleIncomingMessage 2000 (ex_msg 0) ex_router)
         @ snd (handleIncomingMessage 3000 (ex_msg 3)
                 (fst (handleIncomingMessage 2000 (ex_msg 0) ex_router))))
       = [Notify 0 (notification_of (ex_msg 0))]"
    by (simp only: hs list.map)
  from receive_twice_fires_once [OF h i, of 3000] h i n show ?thesis by blast
qed

text \<open>
  C2, as stated, fails: a message accepted with hop count \<open>maxHops - 1\<close> is handed
  to the handlers, but \<open>forwardMessage\<close> returns before setting the timer, so no
  copy with hop count \<open>maxHops\<close> is ever sent.
\<close>

theorem last_hop_counterexample:
  "accepts 2000 ex_router (ex_msg 4)
   \<and> hops (ex_msg 4) = maxHops ex_router - 1
   \<and> filter is_forward (snd (handleIncomingMessage 2000 (ex_msg 4) ex_router)) = []"
  by (simp add: accepts_def handleIncomingMessage_def forwardMessage_def ex_msg_def
      ex_router_def onMessage_def new_router_def)

text \<open>
  C2, amended: for an accepted message with hop count \<open>maxHops - 1\<close> no forward is
  scheduled; a forward is scheduled exactly when the incremented hop count is below
  \<open>maxHops\<close>, and it carries that count; and a message whose hop count is
  \<open>maxHops\<close> or more is rejected by every router with that limit, at any time:
  no handler is called, nothing is forwarded, the router is unchanged.
\<close>

theorem last_hop_not_forwarded:
  assumes "accepts now r d"
  shows "(hops d = maxHops r - 1 \<longrightarrow>
            filter is_forward (snd (handleIncomingMessage now d r)) = [])
         \<and> (\<forall>m. ScheduleForward m \<in> set (snd (handleIncomingMessage now d r)) \<longrightarrow>
                  m = d\<lparr>hops := hops d + 1, forwardedBy := Some (deviceId r)\<rparr>
                  \<and> hops m < maxHops r)
         \<and> (hops d + 1 < maxHops r \<longrightarrow>
               ScheduleForward (d\<lparr>hops := hops d + 1, forwardedBy := Some (deviceId r)\<rparr>)
                 \<in> set (snd (handleIncomingMessage now d r)))
         \<and> (\<forall>now' r' m'. hops m' \<ge> maxHops r' \<longrightarrow>
                  handleIncomingMessage now' m' r' = (r', []))"
proof -
  have a: "hops d = maxHops r - 1 \<longrightarrow>
            filter is_forward (snd (handleIncomingMessage now d r)) = []"
    using assms
    by (simp add: accepts_handle forwardMessage_def Let_def filter_map comp_def)
  have b: "\<forall>m. ScheduleForward m \<in> set (snd (handleIncomingMessage now d r)) \<longrightarrow>
                  m = d\<lparr>hops := hops d + 1, forwardedBy := Some (deviceId r)\<rparr>
                  \<and> hops m < maxHops r"
    using assms
    by (auto simp: accepts_handle forwardMessage_def Let_def split: if_splits)
  have c: "hops d + 1 < maxHops r \<longrightarrow>
               ScheduleForward (d\<lparr>hops := hops d + 1, forwardedBy := Some (deviceId r)\<rparr>)
                 \<in> set (snd (handleIncomingMessage now d r))"
    using assms
    by (simp add: accepts_handle forwardMessage_def Let_def)
  have e: "\<forall>now' r' m'. hops m' \<ge> maxHops r' \<longrightarrow>
                  handleIncomingMessage now' m' r' = (r', [])"
    by (simp add: handleIncomingMessage_def)
  from a b c e show ?thesis by blast
qed

theorem last_hop_not_forwarded_witness:
  "accepts 2000 ex_router (ex_msg 4)
   \<and> hops (ex_msg 4) = maxHops ex_router - 1
   \<and> filter is_forward (snd (handleIncomingMessage 2000 (ex_msg 4) ex_router)) = []
   \<and> hops (ex_msg 5) \<ge> maxHops ex_router
   \<and> handleIncomingMessage 2500 (ex_msg 5) ex_router = (ex_router, [])"
proof -
  have h: "accepts 2000 ex_router (ex_msg 4)"
    by (simp add: accepts_def ex_msg_def ex_router_def onMessage_def new_router_def)
  have k: "hops (ex_msg 4) = maxHops ex_router - 1"
    by (simp add: ex_msg_def ex_router_def onMessage_def new_router_def)
  have l: "hops (ex_msg 5) \<ge> maxHops ex_router"
    by (simp add: ex_msg_def ex_router_def onMessage_def new_router_def)
  from last_hop_not_forwarded [OF h] h k l show ?thesis by blast
qed

text \<open>
  C6, as stated, fails: \<open>broadcastSOS\<close> does not register the id it returns in
  \<open>messageCache\<close>.
\<close>

theorem broadcast_cache_counterexample:
  "messageCache (fst (broadcastSOS 1000 1001 ''help'' (new_router ''A'')))
     (snd (snd (broadcastSOS 1000 1001 ''help'' (new_router ''A'')))) = None"
  by (simp add: broadcastSOS_def Let_def new_router_def)

text \<open>
  C6, amended: a broadcast posts one message on the channel, with hop count 0, the
  clock as timestamp and the sender's device id, returns its id, and leaves the
  router, the dedup cache included, as it was; the sender does not reprocess its own
  echo because a receipt rejects every message whose \<open>senderId\<close> is the receiver's
  own device id, which a relayed copy keeps whatever its hop count and relay.
\<close>

theorem broadcast_echo_rejected_by_sender:
  "broadcastSOS now_id now_ts p r
     = (r, [PostMessage (sos_message now_id now_ts p r)],
        w_messageId (sos_message now_id now_ts p r))
   \<and> broadcastChat now_id now_ts p r
     = (r, [PostMessage (chat_message now_id now_ts p r)],
        w_messageId (chat_message now_id now_ts p r))
   \<and> hops (sos_message now_id now_ts p r) = 0
   \<and> hops (chat_message now_id now_ts p r) = 0
   \<and> w_timestamp (sos_message now_id now_ts p r) = now_ts
   \<and> w_timestamp (chat_message now_id now_ts p r) = now_ts
   \<and> (\<forall>now h f r2. deviceId r2 = deviceId r \<longrightarrow>
          handleIncomingMessage now
            ((sos_message now_id now_ts p r)\<lparr>hops := h, forwardedBy := f\<rparr>) r2 = (r2, [])
          \<and> handleIncomingMessage now
            ((chat_message now_id now_ts p r)\<lparr>hops := h, forwardedBy := f\<rparr>) r2 = (r2, []))"
  by (simp add: broadcastSOS_def broadcastChat_def sos_message_def chat_message_def
      handleIncomingMessage_def)

theorem broadcast_echo_rejected_by_sender_witness:
  "deviceId (onMessage 7 (new_router ''A'')) = deviceId (new_router ''A'')
   \<and> fst (snd (broadcastSOS 1000 1001 ''help'' (new_router ''A'')))
       = [PostMessage (sos_message 1000 1001 ''help'' (new_router ''A''))]
   \<and> handleIncomingMessage 1500
        ((sos_message 1000 1001 ''help'' (new_router ''A''))
           \<lparr>hops := 1, forwardedBy := Some ''B''\<rparr>)
        (onMessage 7 (new_router ''A''))
       = (onMessage 7 (new_router ''A''), [])"
proof -
  have h: "deviceId (onMessage 7 (new_router ''A'')) = deviceId (new_router ''A'')"
    by (simp add: onMessage_def)
  have p: "fst (snd (broadcastSOS 1000 1001 ''help'' (new_router ''A'')))
       = [PostMessage (sos_message 1000 1001 ''help'' (new_router ''A''))]"
    using broadcast_echo_rejected_by_sender [of 1000 1001 "''help''" "new_router ''A''"]
    by simp
  from broadcast_echo_rejected_by_sender [of 1000 1001 "''help''" "new_router ''A''"] h p
  show ?thesis by blast
qed

section \<open>The outbox: how each operation changes the records\<close>

lemma map_filter_upd_present:
  "m key = Some old \<Longrightarrow>
   List.map_filter (\<lambda>k. map_option (Pair k) ((m(key \<mapsto> v)) k)) ks
     = map (\<lambda>(k, r). if k = key then (k, v) else (k, r))
         (List.map_filter (\<lambda>k. map_option (Pair k) (m k)) ks)"
  by (induction ks) (auto simp: List.map_filter_simps split: option.splits)

lemma map_filter_upd_absent:
  "key \<notin> set ks \<Longrightarrow>
   List.map_filter (\<lambda>k. map_option (Pair k) ((m(key := v)) k)) ks
     = List.map_filter (\<lambda>k. map_option (Pair k) (m k)) ks"
  by (induction ks) (auto simp: List.map_filter_simps split: option.splits)

lemma set_map_filter_entries:
  "set (List.map_filter (\<lambda>k. map_option (Pair k) (m k)) ks)
     = {(k, r). k \<in> set ks \<and> m k = Some r}"
  by (induction ks) (auto simp: List.map_filter_simps split: option.splits)

lemma distinct_keys_map_filter:
  "distinct ks \<Longrightarrow> distinct (map fst (List.map_filter (\<lambda>k. map_option (Pair k) (m k)) ks))"
proof (induction ks)
  case Nil
  then show ?case by (simp add: List.map_filter_simps)
next
  case (Cons k ks)
  have "k \<notin> fst ` set (List.map_filter (\<lambda>k. map_option (Pair k) (m k)) ks)"
    using Cons.prems by (auto simp: set_map_filter_entries)
  with Cons show ?case
    by (auto simp: List.map_filter_simps split: option.splits)
qed

lemma entries_set: "set (entries st) = {(k, r). 1 \<le> k \<and> k \<le> keyGenerator st \<and> objectStore st k = Some r}"
  by (auto simp: entries_def set_map_filter_entries)

lemma entries_distinct: "distinct (map fst (entries st))"
  by (simp add: entries_def distinct_keys_map_filter)

lemma map_filter_append:
  "List.map_filter f (xs @ ys) = List.map_filter f xs @ List.map_filter f ys"
  by (simp add: List.map_filter_def)

lemma entries_add:
  "entries (st\<lparr>objectStore := (objectStore st)(Suc (keyGenerator st) \<mapsto> v),
              keyGenerator := Suc (keyGenerator st)\<rparr>)
     = entries st @ [(Suc (keyGenerator st), v)]"
proof -
  let ?n = "keyGenerator st"
  let ?m = "(objectStore st)(Suc ?n \<mapsto> v)"
  have u: "[1..<Suc (Suc ?n)] = [1..<Suc ?n] @ [Suc ?n]"
    by simp
  have a: "List.map_filter (\<lambda>k. map_option (Pair k) (?m k)) [1..<Suc ?n]
             = List.map_filter (\<lambda>k. map_option (Pair k) (objectStore st k)) [1..<Suc ?n]"
    by (rule map_filter_upd_absent) simp
  have b: "List.map_filter (\<lambda>k. map_option (Pair k) (?m k)) [Suc ?n] = [(Suc ?n, v)]"
    by (simp add: List.map_filter_simps)
  have "entries (st\<lparr>objectStore := ?m, keyGenerator := Suc ?n\<rparr>)
          = List.map_filter (\<lambda>k. map_option (Pair k) (?m k)) ([1..<Suc ?n] @ [Suc ?n])"
    unfolding entries_def using u by simp
  also have "\<dots> = entries st @ [(Suc ?n, v)]"
    unfolding map_filter_append a b entries_def ..
  finally show ?thesis .
qed

lemma entries_put:
  "objectStore st key = Some old \<Longrightarrow>
   entries (st\<lparr>objectStore := (objectStore st)(key \<mapsto> v)\<rparr>)
     = map (\<lambda>(k, r). if k = key then (k, v) else (k, r)) (entries st)"
  by (simp add: entries_def map_filter_upd_present del: upt_Suc fun_upd_apply)

lemma find_entries_Some:
  "find P (entries st) = Some (key, record) \<Longrightarrow> objectStore st key = Some record"
proof -
  assume "find P (entries st) = Some (key, record)"
  then have "(key, record) \<in> set (entries st)"
    by (auto simp: find_Some_iff in_set_conv_nth)
  then show ?thesis by (simp add: entries_set)
qed

lemma map_other_keys:
  "k \<notin> fst ` set es \<Longrightarrow> map (\<lambda>(k', r'). if k' = k then (k', v) else (k', r')) es = es"
  by (induction es) auto

lemma mark_first_entries:
  "distinct (map fst es) \<Longrightarrow>
   find (\<lambda>(k, r). messageId r = mid) es = Some (key, rcd) \<Longrightarrow>
   map snd (map (\<lambda>(k, r). if k = key then (k, mark now rcd) else (k, r)) es)
     = mark_first now mid (map snd es)"
proof (induction es)
  case Nil
  then show ?case by simp
next
  case (Cons e es)
  obtain k r where e: "e = (k, r)" by (cases e)
  have nk: "k \<notin> fst ` set es" using Cons.prems e by simp
  show ?case
  proof (cases "messageId r = mid")
    case True
    with Cons.prems e have "key = k" and "rcd = r" by simp_all
    with True e nk show ?thesis by (simp add: map_other_keys)
  next
    case False
    with Cons.prems e have f: "find (\<lambda>(k, r). messageId r = mid) es = Some (key, rcd)"
      by simp
    then have "(key, rcd) \<in> set es"
      by (auto simp: find_Some_iff in_set_conv_nth)
    with nk have "key \<noteq> k" by (auto simp: image_iff)
    with False e Cons.IH f Cons.prems show ?thesis by simp
  qed
qed

lemma mark_first_absent:
  "mid \<notin> messageId ` set rs \<Longrightarrow> mark_first now mid rs = rs"
  by (induction rs) auto

lemma mark_all_absent:
  "mid \<notin> messageId ` set rs \<Longrightarrow> mark_all now mid rs = rs"
  by (induction rs) (auto simp: mark_all_def)

lemma find_entries_None:
  "find (\<lambda>(k, r). messageId r = mid) es = None \<Longrightarrow> mid \<notin> messageId ` set (map snd es)"
  by (fastforce simp: find_None_iff)

lemma records_markSyncedInLocalStorage:
  "useLocalStorage st \<Longrightarrow>
   markAsSynced True now mid st = Inr (st\<lparr>localStorage := mark_all now mid (records st)\<rparr>)
   \<and> records (st\<lparr>localStorage := mark_all now mid (records st)\<rparr>) = mark_all now mid (records st)"
  by (simp add: markAsSynced_def markSyncedInLocalStorage_def getLocalStorageMessages_def
      records_def mark_all_def mark_def)

lemma records_markSyncedInIndexedDB:
  assumes "\<not> useLocalStorage st"
  shows "\<exists>st'. markAsSynced True now mid st = Inr st' \<and> records st' = mark_first now mid (records st)
           \<and> useLocalStorage st' = useLocalStorage st \<and> booleanKeys st' = booleanKeys st"
proof (cases "find (\<lambda>(k, r). messageId r = mid) (entries st)")
  case None
  then have "mark_first now mid (records st) = records st"
    using assms find_entries_None [OF None] by (simp add: records_def mark_first_absent)
  with None assms show ?thesis
    by (simp add: markAsSynced_def markSyncedInIndexedDB_def)
next
  case (Some a)
  obtain key rcd where a: "a = (key, rcd)" by (cases a)
  let ?st' = "st\<lparr>objectStore := (objectStore st)(key \<mapsto> mark now rcd)\<rparr>"
  have m: "markAsSynced True now mid st = Inr ?st'"
    using Some a assms by (simp add: markAsSynced_def markSyncedInIndexedDB_def mark_def)
  have o: "objectStore st key = Some rcd"
    using Some a by (simp add: find_entries_Some)
  have "records ?st' = map snd (map (\<lambda>(k, r). if k = key then (k, mark now rcd) else (k, r)) (entries st))"
    using assms by (simp add: records_def entries_put [OF o])
  also have "\<dots> = mark_first now mid (map snd (entries st))"
    using Some a by (intro mark_first_entries entries_distinct) simp
  finally have "records ?st' = mark_first now mid (records st)"
    using assms by (simp add: records_def)
  with m show ?thesis by simp
qed

lemma markAsSynced_records:
  "\<exists>st'. markAsSynced True now mid st = Inr st'
      \<and> records st' = (if useLocalStorage st then mark_all now mid (records st)
                       else mark_first now mid (records st))
      \<and> useLocalStorage st' = useLocalStorage st \<and> booleanKeys st' = booleanKeys st"
proof (cases "useLocalStorage st")
  case True
  with records_markSyncedInLocalStorage [OF True, of now mid] show ?thesis by simp
next
  case False
  with records_markSyncedInIndexedDB [OF False, of now mid] show ?thesis by simp
qed

lemma markAsSynced_fails: "markAsSynced False now mid st = Inl StorageError"
  by (simp add: markAsSynced_def markSyncedInLocalStorage_def markSyncedInIndexedDB_def)

lemma mark_first_ids: "map messageId (mark_first now mid rs) = map messageId rs"
  by (induction rs) (auto simp: mark_def)

lemma mark_all_ids: "map messageId (mark_all now mid rs) = map messageId rs"
  by (induction rs) (auto simp: mark_def mark_all_def)

lemma descends_refl: "descends r r"
  by (simp add: descends_def)

lemma descends_mark: "descends r (mark now r)"
  by (simp add: descends_def mark_def)

lemma descends_trans: "descends a b \<Longrightarrow> descends b c \<Longrightarrow> descends a c"
  by (auto simp: descends_def)

lemma descends_synced: "descends r r' \<Longrightarrow> synced r \<Longrightarrow> synced r'"
  by (auto simp: descends_def)

lemma mark_first_descends: "list_all2 descends rs (mark_first now mid rs)"
  by (induction rs) (auto simp: descends_refl descends_mark list_all2_refl)

lemma mark_all_descends: "list_all2 descends rs (mark_all now mid rs)"
  by (induction rs) (auto simp: descends_refl descends_mark mark_all_def)

lemma mark_first_others:
  "filter (\<lambda>r. messageId r \<noteq> mid) (mark_first now mid rs) = filter (\<lambda>r. messageId r \<noteq> mid) rs"
  by (induction rs) (auto simp: mark_def)

lemma mark_all_others:
  "filter (\<lambda>r. messageId r \<noteq> mid) (mark_all now mid rs) = filter (\<lambda>r. messageId r \<noteq> mid) rs"
  by (induction rs) (auto simp: mark_def mark_all_def)

lemma mark_all_those:
  "filter (\<lambda>r. messageId r = mid) (mark_all now mid rs)
     = map (mark now) (filter (\<lambda>r. messageId r = mid) rs)"
  by (induction rs) (auto simp: mark_def mark_all_def)

lemma mark_first_single:
  "filter (\<lambda>r. messageId r = mid) rs = [r] \<Longrightarrow> mark_first now mid rs = mark_all now mid rs"
proof (induction rs)
  case Nil
  then show ?case by simp
next
  case (Cons a rs)
  show ?case
  proof (cases "messageId a = mid")
    case True
    with Cons.prems have "filter (\<lambda>r. messageId r = mid) rs = []" by simp
    then have "mid \<notin> messageId ` set rs" by (auto simp: filter_empty_conv)
    then have "mark_all now mid rs = rs" by (rule mark_all_absent)
    with True show ?thesis by (simp add: mark_all_def)
  next
    case False
    with Cons show ?thesis by (simp add: mark_all_def)
  qed
qed

lemma mark_mark: "mark t2 (mark t1 r) = mark t2 r"
  by (simp add: mark_def)

lemma mark_all_twice: "mark_all t2 mid (mark_all t1 mid rs) = mark_all t2 mid rs"
  by (induction rs) (auto simp: mark_all_def mark_def)

lemma mark_first_twice: "mark_first t2 mid (mark_first t1 mid rs) = mark_first t2 mid rs"
  by (induction rs) (auto simp: mark_def)

lemma fold_delete:
  "fold (\<lambda>(k, r) m. if synced r then m(k := None) else m) xs m
     = (\<lambda>k. if k \<in> fst ` {x \<in> set xs. synced (snd x)} then None else m k)"
proof (induction xs arbitrary: m)
  case Nil
  then show ?case by simp
next
  case (Cons x xs)
  obtain k r where x: "x = (k, r)" by (cases x)
  show ?case
    unfolding x by (auto simp: Cons.IH fun_eq_iff image_iff)
qed

lemma map_filter_delete:
  "\<forall>k \<in> set ks. \<forall>r. m k = Some r \<longrightarrow> (k \<in> D \<longleftrightarrow> Q r) \<Longrightarrow>
   List.map_filter (\<lambda>k. map_option (Pair k) (if k \<in> D then None else m k)) ks
     = filter (\<lambda>(k, r). \<not> Q r) (List.map_filter (\<lambda>k. map_option (Pair k) (m k)) ks)"
  by (induction ks) (auto simp: List.map_filter_simps split: option.splits)

lemma entries_clear:
  "entries (st\<lparr>objectStore :=
        fold (\<lambda>(k, r) m. if synced r then m(k := None) else m)
          (cursor_synced True (entries st)) (objectStore st)\<rparr>)
     = filter (\<lambda>(k, r). \<not> synced r) (entries st)"
proof -
  let ?D = "fst ` {x \<in> set (cursor_synced True (entries st)). synced (snd x)}"
  have D: "\<forall>k \<in> set [1..<Suc (keyGenerator st)]. \<forall>r. objectStore st k = Some r \<longrightarrow>
             (k \<in> ?D \<longleftrightarrow> synced r)"
    by (auto simp: cursor_synced_def entries_set image_iff)
  show ?thesis
    unfolding fold_delete
    using map_filter_delete [OF D] by (simp add: entries_def del: upt_Suc)
qed

lemma clearSyncedMessages_records:
  "\<exists>st'. clearSyncedMessages True st = Inr st'
      \<and> records st' = (if useLocalStorage st \<or> booleanKeys st
                       then filter (\<lambda>r. \<not> synced r) (records st)
                       else records st)
      \<and> useLocalStorage st' = useLocalStorage st \<and> booleanKeys st' = booleanKeys st"
proof (cases "useLocalStorage st")
  case True
  then show ?thesis
    by (simp add: clearSyncedMessages_def getLocalStorageMessages_def records_def)
next
  case False
  show ?thesis
  proof (cases "booleanKeys st")
    case True
    have "map snd (filter (\<lambda>(k, r). \<not> synced r) (entries st))
            = filter (\<lambda>r. \<not> synced r) (map snd (entries st))"
      by (induction "entries st") (auto simp: filter_map comp_def case_prod_unfold)
    with True False show ?thesis
      by (simp add: clearSyncedMessages_def clearSyncedFromIndexedDB_def records_def
          entries_clear)
  next
    case nb: False
    have "st\<lparr>objectStore := objectStore st\<rparr> = st" by simp
    with nb False show ?thesis
      by (simp add: clearSyncedMessages_def clearSyncedFromIndexedDB_def records_def
          cursor_synced_def)
  qed
qed

lemma getPendingMessages_records:
  "getPendingMessages True st
     = Inr (if useLocalStorage st \<or> booleanKeys st
            then filter (\<lambda>r. \<not> synced r) (records st) else [])"
proof -
  have "map snd (filter (\<lambda>(k, r). \<not> synced r) (entries st))
            = filter (\<lambda>r. \<not> synced r) (map snd (entries st))"
    by (simp add: filter_map comp_def case_prod_unfold)
  then show ?thesis
    by (simp add: getPendingMessages_def getIndexedDBMessages_def getLocalStorageMessages_def
        records_def cursor_synced_def case_prod_unfold)
qed

lemma storeMessage_records:
  "storeMessage ok now fresh message st = Inr (st', res) \<Longrightarrow>
     records st' = records st @ [new_record now fresh message]
     \<and> useLocalStorage st' = useLocalStorage st \<and> booleanKeys st' = booleanKeys st"
  by (auto simp: storeMessage_def storeInLocalStorage_def storeInIndexedDB_def
      getLocalStorageMessages_def records_def entries_add Let_def split: if_splits)

lemma storeMessage_LocalStorage:
  "useLocalStorage st \<Longrightarrow>
   storeMessage True now fresh message st
     = Inr (st\<lparr>localStorage := localStorage st @ [new_record now fresh message]\<rparr>,
            Id (messageId (new_record now fresh message)))"
  by (simp add: storeMessage_def storeInLocalStorage_def getLocalStorageMessages_def Let_def)

lemma storeMessage_IndexedDB:
  "\<not> useLocalStorage st \<Longrightarrow>
   messageId (new_record now fresh message) \<notin> messageId ` set (records st) \<Longrightarrow>
   \<exists>st'. storeMessage True now fresh message st = Inr (st', Key (Suc (keyGenerator st)))
      \<and> records st' = records st @ [new_record now fresh message]
      \<and> useLocalStorage st' = useLocalStorage st \<and> booleanKeys st' = booleanKeys st"
proof -
  assume a: "\<not> useLocalStorage st"
    and b: "messageId (new_record now fresh message) \<notin> messageId ` set (records st)"
  have "find (\<lambda>(k, r). messageId r = messageId (new_record now fresh message)) (entries st) = None"
  proof -
    have "\<forall>x \<in> set (entries st). messageId (snd x) \<noteq> messageId (new_record now fresh message)"
      using a b by (auto simp: records_def image_iff)
    then show ?thesis by (auto simp: find_None_iff)
  qed
  with a show ?thesis
    by (simp add: storeMessage_def storeInIndexedDB_def Let_def records_def entries_add)
qed

lemma apply_op_flags:
  "useLocalStorage (apply_op op st) = useLocalStorage st
   \<and> booleanKeys (apply_op op st) = booleanKeys st"
proof (cases op)
  case (StoreMessage ok now fresh message)
  then show ?thesis
    by (auto simp: storeMessage_records split: sum.splits)
next
  case (MarkAsSynced ok now mid)
  show ?thesis
  proof (cases ok)
    case True
    with MarkAsSynced markAsSynced_records [of now mid st] show ?thesis by auto
  next
    case False
    with MarkAsSynced show ?thesis by (simp add: markAsSynced_fails)
  qed
next
  case (ClearSyncedMessages ok)
  show ?thesis
  proof (cases ok)
    case True
    with ClearSyncedMessages clearSyncedMessages_records [of st] show ?thesis by auto
  next
    case False
    with ClearSyncedMessages show ?thesis
      by (simp add: clearSyncedMessages_def clearSyncedFromIndexedDB_def)
  qed
qed

lemma clearSyncedMessages_fails: "clearSyncedMessages False st = Inl StorageError"
  by (simp add: clearSyncedMessages_def clearSyncedFromIndexedDB_def)

lemma apply_op_mark_records:
  "records (apply_op (MarkAsSynced ok now mid) st)
     = (if \<not> ok then records st
        else if useLocalStorage st then mark_all now mid (records st)
        else mark_first now mid (records st))"
proof (cases ok)
  case True
  with markAsSynced_records [of now mid st] show ?thesis by auto
next
  case False
  then show ?thesis by (simp add: markAsSynced_fails)
qed

lemma apply_op_clear_records:
  "records (apply_op (ClearSyncedMessages ok) st)
     = (if ok \<and> (useLocalStorage st \<or> booleanKeys st)
        then filter (\<lambda>r. \<not> synced r) (records st)
        else records st)"
proof (cases ok)
  case True
  with clearSyncedMessages_records [of st] show ?thesis by auto
next
  case False
  then show ?thesis by (simp add: clearSyncedMessages_fails)
qed

lemma apply_op_store_records:
  "records (apply_op (StoreMessage ok now fresh message) st) = records st
   \<or> records (apply_op (StoreMessage ok now fresh message) st)
       = records st @ [new_record now fresh message]"
  by (auto simp: storeMessage_records split: sum.splits)

lemma list_all2_descends_set:
  "list_all2 descends rs rs' \<Longrightarrow> r' \<in> set rs' \<Longrightarrow> \<exists>r \<in> set rs. descends r r'"
  by (metis in_set_conv_nth list_all2_conv_all_nth)

lemma apply_op_descends:
  assumes "r' \<in> set (records (apply_op op st))"
  shows "\<exists>r \<in> set (records st) \<union> set (enqueued [op]). descends r r'"
proof (cases op)
  case (StoreMessage ok now fresh message)
  with assms apply_op_store_records [of ok now fresh message st]
  have "r' \<in> set (records st) \<union> set (enqueued [op])" by auto
  then show ?thesis using descends_refl by blast
next
  case (MarkAsSynced ok now mid)
  have "list_all2 descends (records st) (records (apply_op (MarkAsSynced ok now mid) st))"
    unfolding apply_op_mark_records
    by (simp add: mark_all_descends mark_first_descends list_all2_refl descends_refl)
  with assms MarkAsSynced show ?thesis
    by (auto dest: list_all2_descends_set)
next
  case (ClearSyncedMessages ok)
  with assms have "r' \<in> set (records st)"
    unfolding ClearSyncedMessages apply_op_clear_records by (auto split: if_splits)
  then show ?thesis using descends_refl by blast
qed

lemma enqueued_append: "enqueued (xs @ ys) = enqueued xs @ enqueued ys"
  by (induction xs rule: enqueued.induct) auto

lemma apply_ops_descends:
  "r' \<in> set (records (apply_ops ops st)) \<Longrightarrow>
   \<exists>r \<in> set (records st) \<union> set (enqueued ops). descends r r'"
proof (induction ops arbitrary: st)
  case Nil
  then show ?case by (auto intro: descends_refl)
next
  case (Cons op ops)
  from Cons.prems have "r' \<in> set (records (apply_ops ops (apply_op op st)))" by simp
  from Cons.IH [OF this] obtain r1
    where r1: "r1 \<in> set (records (apply_op op st)) \<union> set (enqueued ops)"
      and d1: "descends r1 r'" by blast
  have e: "enqueued (op # ops) = enqueued [op] @ enqueued ops"
    using enqueued_append [of "[op]" ops] by simp
  show ?case
  proof (cases "r1 \<in> set (enqueued ops)")
    case True
    with d1 e show ?thesis by auto
  next
    case False
    with r1 have "r1 \<in> set (records (apply_op op st))" by simp
    from apply_op_descends [OF this] obtain r0
      where "r0 \<in> set (records st) \<union> set (enqueued [op])" and "descends r0 r1" by blast
    with d1 e show ?thesis by (auto intro: descends_trans)
  qed
qed

lemma enqueued_pending: "r \<in> set (enqueued ops) \<Longrightarrow> \<not> synced r"
  by (induction ops rule: enqueued.induct) (auto simp: new_record_def)

lemma ex_ls_records:
  "records (apply_ops ex_enqueue ex_ls) = [ex_r 1000 ''A-1'', ex_r 2000 ''A-2'', ex_r 3000 ''A-3'']"
  by (simp add: ex_enqueue_def ex_ls_def init_def new_storage_def storeMessage_def
      storeInLocalStorage_def getLocalStorageMessages_def records_def ex_r_def Let_def)

lemma ex_idb_records:
  "records (apply_ops ex_enqueue ex_idb) = [ex_r 1000 ''A-1'', ex_r 2000 ''A-2'', ex_r 3000 ''A-3'']"
  by (simp add: ex_enqueue_def ex_idb_def init_def new_storage_def storeMessage_def
      storeInIndexedDB_def records_def ex_r_def entries_def List.map_filter_simps
      new_record_def ex_m_def Let_def)

lemma apply_ops_flags:
  "useLocalStorage (apply_ops ops st) = useLocalStorage st
   \<and> booleanKeys (apply_ops ops st) = booleanKeys st"
  by (induction ops arbitrary: st) (simp_all add: apply_op_flags)

lemma math_min_Min:
  "math_min xs = (if xs = [] then None else Some (Min (set xs)))"
proof (induction xs)
  case Nil
  then show ?case by simp
next
  case (Cons x xs)
  then show ?case by (cases "xs = []") (auto simp: min_def)
qed

lemma markAsSynced_absent:
  assumes "mid \<notin> messageId ` set (records st)"
  shows "markAsSynced True now mid st = Inr st"
proof (cases "useLocalStorage st")
  case True
  have "mark_all now mid (records st) = localStorage st"
    using True assms by (simp add: mark_all_absent) (simp add: records_def)
  with records_markSyncedInLocalStorage [OF True, of now mid] show ?thesis by simp
next
  case False
  have "\<forall>x \<in> set (entries st). messageId (snd x) \<noteq> mid"
    using False assms by (auto simp: records_def image_iff)
  then have "find (\<lambda>(k, r). messageId r = mid) (entries st) = None"
    by (auto simp: find_None_iff)
  with False show ?thesis
    by (simp add: markAsSynced_def markSyncedInIndexedDB_def)
qed

lemma mark_first_those:
  "filter (\<lambda>r. messageId r = mid) rs = [r] \<Longrightarrow>
   filter (\<lambda>r. messageId r = mid) (mark_first now mid rs) = [mark now r]"
  by (simp add: mark_first_single mark_all_those)

text \<open>
  On the LocalStorage fallback, enqueued records are listed after a restart in the
  order they were enqueued; on IndexedDB of an engine that follows the standard the
  listing is empty whatever the store holds.
\<close>

lemma enqueue_LocalStorage_records:
  "useLocalStorage st \<Longrightarrow> list_all is_enqueue ops \<Longrightarrow>
   records (apply_ops ops st) = records st @ enqueued ops"
proof (induction ops arbitrary: st)
  case Nil
  then show ?case by simp
next
  case (Cons op ops)
  from Cons.prems(2) obtain now fresh message where op: "op = StoreMessage True now fresh message"
    by (cases op) auto
  let ?st1 = "st\<lparr>localStorage := localStorage st @ [new_record now fresh message]\<rparr>"
  have s: "apply_op op st = ?st1"
    using Cons.prems(1) op by (simp add: storeMessage_LocalStorage)
  have "records (apply_ops ops ?st1) = records ?st1 @ enqueued ops"
    using Cons.prems by (intro Cons.IH) simp_all
  with s op Cons.prems(1) show ?case by (simp add: records_def)
qed

lemma pending_after_restart_LocalStorage:
  assumes "useLocalStorage st" and "list_all is_enqueue ops"
  shows "getPendingMessages ok (init False (apply_ops ops st))
           = Inr (filter (\<lambda>r. \<not> synced r) (records st) @ enqueued ops)"
proof -
  have u: "useLocalStorage (apply_ops ops st)"
    using assms(1) by (simp add: apply_ops_flags)
  then have i: "init False (apply_ops ops st) = apply_ops ops st"
    by (simp add: init_def)
  have "filter (\<lambda>r. \<not> synced r) (enqueued ops) = enqueued ops"
    by (simp add: filter_id_conv enqueued_pending)
  with u i enqueue_LocalStorage_records [OF assms] show ?thesis
    by (simp add: getPendingMessages_def getLocalStorageMessages_def records_def)
qed

lemma pending_IndexedDB_conforming:
  "\<not> useLocalStorage st \<Longrightarrow> \<not> booleanKeys st \<Longrightarrow> getPendingMessages True st = Inr []"
  by (simp add: getPendingMessages_records)

section \<open>The outbox: listing, marking, compaction, statistics\<close>

text \<open>
  C5. The code does not do what the claim says on its default backend. On an
  IndexedDB that follows the standard, three messages are enqueued and stored, the
  service is constructed again, and \<open>getPendingMessages\<close> returns no record: the
  cursor it walks runs over the index on \<open>synced\<close>, which holds no record because
  \<open>synced\<close> is a Boolean. The same three messages on the LocalStorage fallback are
  listed in insertion order.
\<close>

theorem pending_listing_IndexedDB_empty:
  "records (init True (apply_ops ex_enqueue ex_idb))
     = [ex_r 1000 ''A-1'', ex_r 2000 ''A-2'', ex_r 3000 ''A-3'']
   \<and> getPendingMessages True (init True (apply_ops ex_enqueue ex_idb)) = Inr []
   \<and> getPendingMessages True (init False (apply_ops ex_enqueue ex_ls))
       = Inr [ex_r 1000 ''A-1'', ex_r 2000 ''A-2'', ex_r 3000 ''A-3'']"
proof -
  have f: "\<not> useLocalStorage (apply_ops ex_enqueue ex_idb)
           \<and> \<not> booleanKeys (apply_ops ex_enqueue ex_idb)"
    using apply_ops_flags [of ex_enqueue ex_idb]
    by (simp add: ex_idb_def init_def new_storage_def)
  then have i: "init True (apply_ops ex_enqueue ex_idb) = apply_ops ex_enqueue ex_idb"
    by (simp add: init_def)
  have g: "useLocalStorage (apply_ops ex_enqueue ex_ls)"
    using apply_ops_flags [of ex_enqueue ex_ls] by (simp add: ex_ls_def init_def)
  then have j: "init False (apply_ops ex_enqueue ex_ls) = apply_ops ex_enqueue ex_ls"
    by (simp add: init_def)
  have a: "records (init True (apply_ops ex_enqueue ex_idb))
     = [ex_r 1000 ''A-1'', ex_r 2000 ''A-2'', ex_r 3000 ''A-3'']"
    by (simp add: i ex_idb_records)
  have b: "getPendingMessages True (init True (apply_ops ex_enqueue ex_idb)) = Inr []"
    using f by (simp add: i getPendingMessages_records)
  have c: "getPendingMessages True (init False (apply_ops ex_enqueue ex_ls))
       = Inr [ex_r 1000 ''A-1'', ex_r 2000 ''A-2'', ex_r 3000 ''A-3'']"
    using g by (simp add: j getPendingMessages_records ex_ls_records)
      (simp add: ex_r_def new_record_def)
  from a b c show ?thesis by blast
qed

text \<open>
  C7. \<open>markAsSynced\<close> called twice with the same id: both calls resolve; no
  record is added or removed; when one record has the id, one record has it
  afterwards and it is synced (with the time of the second call as \<open>syncedAt\<close>);
  the records with other ids are untouched; and for an id no record has, the call
  resolves and leaves the store exactly as it was.
\<close>

theorem markAsSynced_twice:
  "\<not> isl (markAsSynced True t1 mid st)
   \<and> \<not> isl (markAsSynced True t2 mid (projr (markAsSynced True t1 mid st)))
   \<and> map messageId
         (records (projr (markAsSynced True t2 mid (projr (markAsSynced True t1 mid st)))))
       = map messageId (records st)
   \<and> (filter (\<lambda>r. messageId r = mid) (records st) = [r] \<longrightarrow>
        filter (\<lambda>r. messageId r = mid)
          (records (projr (markAsSynced True t2 mid (projr (markAsSynced True t1 mid st)))))
        = [r\<lparr>synced := True, syncedAt := Some t2\<rparr>])
   \<and> filter (\<lambda>r. messageId r \<noteq> mid)
         (records (projr (markAsSynced True t2 mid (projr (markAsSynced True t1 mid st)))))
       = filter (\<lambda>r. messageId r \<noteq> mid) (records st)
   \<and> (mid \<notin> messageId ` set (records st) \<longrightarrow> markAsSynced True t1 mid st = Inr st)"
proof -
  obtain s1 where s1: "markAsSynced True t1 mid st = Inr s1"
    and r1: "records s1 = (if useLocalStorage st then mark_all t1 mid (records st)
                           else mark_first t1 mid (records st))"
    and u1: "useLocalStorage s1 = useLocalStorage st"
    using markAsSynced_records [of t1 mid st] by blast
  obtain s2 where s2: "markAsSynced True t2 mid s1 = Inr s2"
    and r2: "records s2 = (if useLocalStorage s1 then mark_all t2 mid (records s1)
                           else mark_first t2 mid (records s1))"
    using markAsSynced_records [of t2 mid s1] by blast
  have rs: "records s2 = (if useLocalStorage st then mark_all t2 mid (records st)
                          else mark_first t2 mid (records st))"
    using r1 r2 u1 by (simp add: mark_all_twice mark_first_twice)
  have a: "map messageId (records s2) = map messageId (records st)"
    using rs by (simp add: mark_all_ids mark_first_ids)
  have b: "filter (\<lambda>r. messageId r = mid) (records st) = [r] \<longrightarrow>
        filter (\<lambda>r. messageId r = mid) (records s2) = [r\<lparr>synced := True, syncedAt := Some t2\<rparr>]"
    using rs by (auto simp: mark_all_those mark_first_those mark_def)
  have c: "filter (\<lambda>r. messageId r \<noteq> mid) (records s2) = filter (\<lambda>r. messageId r \<noteq> mid) (records st)"
    using rs by (simp add: mark_all_others mark_first_others)
  have d: "mid \<notin> messageId ` set (records st) \<longrightarrow> markAsSynced True t1 mid st = Inr st"
    using markAsSynced_absent by blast
  from a b c d show ?thesis by (simp add: s1 s2)
qed

theorem markAsSynced_twice_witness:
  "filter (\<lambda>r. messageId r = ''A-2'') (records (apply_ops ex_enqueue ex_ls)) = [ex_r 2000 ''A-2'']
   \<and> filter (\<lambda>r. messageId r = ''A-2'')
        (records (projr (markAsSynced True 6000 ''A-2''
           (projr (markAsSynced True 5000 ''A-2'' (apply_ops ex_enqueue ex_ls))))))
       = [(ex_r 2000 ''A-2'')\<lparr>synced := True, syncedAt := Some 6000\<rparr>]
   \<and> ''A-9'' \<notin> messageId ` set (records (apply_ops ex_enqueue ex_ls))
   \<and> markAsSynced True 5000 ''A-9'' (apply_ops ex_enqueue ex_ls)
       = Inr (apply_ops ex_enqueue ex_ls)"
proof -
  have h: "filter (\<lambda>r. messageId r = ''A-2'') (records (apply_ops ex_enqueue ex_ls))
             = [ex_r 2000 ''A-2'']"
    by (simp add: ex_ls_records) (simp add: ex_r_def new_record_def ex_m_def)
  have k: "''A-9'' \<notin> messageId ` set (records (apply_ops ex_enqueue ex_ls))"
    by (simp add: ex_ls_records) (simp add: ex_r_def new_record_def ex_m_def)
  from markAsSynced_twice [of 5000 "''A-2''" "apply_ops ex_enqueue ex_ls" 6000 "ex_r 2000 ''A-2''"]
    markAsSynced_twice [of 5000 "''A-9''" "apply_ops ex_enqueue ex_ls" 6000 "ex_r 2000 ''A-2''"]
    h k
  show ?thesis by blast
qed

text \<open>
  C8. Over any sequence of outbox operations, every record in the outbox at the end
  is a record of the initial outbox or one enqueued on the way, either unchanged or
  marked as synced, and a record that was synced is still synced: no record goes
  back to pending. Marking changes the records in place, each one unchanged or
  marked. Compaction, whether it succeeds or fails and on either backend, keeps
  every pending record, in order, and adds nothing.
\<close>

theorem outbox_state_only_advances:
  "(\<forall>r' \<in> set (records (apply_ops ops st)).
      \<exists>r \<in> set (records st) \<union> set (enqueued ops).
        descends r r' \<and> (synced r \<longrightarrow> synced r'))
   \<and> list_all2 descends (records st) (records (apply_op (MarkAsSynced ok now mid) st))
   \<and> filter (\<lambda>r. \<not> synced r) (records (apply_op (ClearSyncedMessages ok) st))
       = filter (\<lambda>r. \<not> synced r) (records st)
   \<and> set (records (apply_op (ClearSyncedMessages ok) st)) \<subseteq> set (records st)"
proof -
  have a: "\<forall>r' \<in> set (records (apply_ops ops st)).
      \<exists>r \<in> set (records st) \<union> set (enqueued ops).
        descends r r' \<and> (synced r \<longrightarrow> synced r')"
    using apply_ops_descends descends_synced by blast
  have b: "list_all2 descends (records st) (records (apply_op (MarkAsSynced ok now mid) st))"
    unfolding apply_op_mark_records
    by (simp add: mark_all_descends mark_first_descends list_all2_refl descends_refl)
  have c: "filter (\<lambda>r. \<not> synced r) (records (apply_op (ClearSyncedMessages ok) st))
       = filter (\<lambda>r. \<not> synced r) (records st)"
    unfolding apply_op_clear_records by simp
  have d: "set (records (apply_op (ClearSyncedMessages ok) st)) \<subseteq> set (records st)"
    unfolding apply_op_clear_records by auto
  from a b c d show ?thesis by blast
qed

theorem outbox_state_only_advances_witness:
  "ex_r 2000 ''A-2'' \<in> set (records (apply_ops ex_ops ex_ls))
   \<and> ex_r 2000 ''A-2'' \<in> set (records ex_ls) \<union> set (enqueued ex_ops)
   \<and> list_all2 descends (records (apply_ops ex_enqueue ex_ls))
        (records (apply_op (MarkAsSynced True 5000 ''A-1'') (apply_ops ex_enqueue ex_ls)))
   \<and> filter (\<lambda>r. \<not> synced r)
        (records (apply_op (ClearSyncedMessages True) (apply_ops ex_enqueue ex_ls)))
       = [ex_r 1000 ''A-1'', ex_r 2000 ''A-2'', ex_r 3000 ''A-3'']"
proof -
  have m: "ex_r 2000 ''A-2'' \<in> set (records (apply_ops ex_ops ex_ls))"
    by (simp add: ex_ops_def ex_enqueue_def ex_ls_def init_def new_storage_def
        storeMessage_def storeInLocalStorage_def getLocalStorageMessages_def records_def
        markAsSynced_def markSyncedInLocalStorage_def clearSyncedMessages_def
        ex_r_def new_record_def ex_m_def Let_def)
  have p: "\<not> synced (ex_r 2000 ''A-2'')"
    by (simp add: ex_r_def new_record_def)
  from outbox_state_only_advances [of ex_ops ex_ls True 5000 "''A-1''"] m
  obtain r where r: "r \<in> set (records ex_ls) \<union> set (enqueued ex_ops)"
    and d: "descends r (ex_r 2000 ''A-2'')" by blast
  from d p have "r = ex_r 2000 ''A-2''" by (auto simp: descends_def)
  with r have e: "ex_r 2000 ''A-2'' \<in> set (records ex_ls) \<union> set (enqueued ex_ops)"
    by simp
  have q: "filter (\<lambda>r. \<not> synced r) (records (apply_ops ex_enqueue ex_ls))
             = [ex_r 1000 ''A-1'', ex_r 2000 ''A-2'', ex_r 3000 ''A-3'']"
    by (simp add: ex_ls_records) (simp add: ex_r_def new_record_def)
  from outbox_state_only_advances
         [of "[]" "apply_ops ex_enqueue ex_ls" True 5000 "''A-1''"] m e q
  show ?thesis by simp
qed

text \<open>
  C10. \<open>getStats\<close> reports the length of the list \<open>getPendingMessages\<close> gives
  and the least timestamp in it, \<open>null\<close> for the empty list, and fails when the
  listing fails.
\<close>

theorem getStats_counts_pending:
  "getStats ok st =
     (case getPendingMessages ok st of
        Inl e \<Rightarrow> Inl e
      | Inr p \<Rightarrow>
          Inr \<lparr>pendingCount = length p,
               storageType = (if useLocalStorage st then ''LocalStorage'' else ''IndexedDB''),
               oldestMessage = (if p = [] then None else Some (Min (timestamp ` set p)))\<rparr>)"
proof (cases "getPendingMessages ok st")
  case (Inl e)
  then show ?thesis by (simp add: getStats_def)
next
  case (Inr p)
  have "math_min (map timestamp p) = (if p = [] then None else Some (Min (timestamp ` set p)))"
    by (simp add: math_min_Min)
  with Inr show ?thesis by (simp add: getStats_def)
qed

theorem getStats_counts_pending_witness:
  "getPendingMessages True (apply_ops ex_enqueue ex_ls)
     = Inr [ex_r 1000 ''A-1'', ex_r 2000 ''A-2'', ex_r 3000 ''A-3'']
   \<and> getStats True (apply_ops ex_enqueue ex_ls)
     = Inr \<lparr>pendingCount = 3, storageType = ''LocalStorage'', oldestMessage = Some 1000\<rparr>"
proof -
  have u: "useLocalStorage (apply_ops ex_enqueue ex_ls)"
    using apply_ops_flags [of ex_enqueue ex_ls] by (simp add: ex_ls_def init_def)
  have p: "getPendingMessages True (apply_ops ex_enqueue ex_ls)
     = Inr [ex_r 1000 ''A-1'', ex_r 2000 ''A-2'', ex_r 3000 ''A-3'']"
    using u by (simp add: getPendingMessages_records ex_ls_records)
      (simp add: ex_r_def new_record_def)
  have t: "Min (timestamp ` set [ex_r 1000 ''A-1'', ex_r 2000 ''A-2'', ex_r 3000 ''A-3'']) = 1000"
    by (simp add: ex_r_def new_record_def)
  from getStats_counts_pending [of True "apply_ops ex_enqueue ex_ls"] u p t
  show ?thesis by simp
qed

section \<open>The sync pass: what the loop does to the outbox\<close>

lemma getPendingMessages_Inr:
  "getPendingMessages ok st = Inr p \<Longrightarrow>
   p = (if useLocalStorage st \<or> booleanKeys st
        then filter (\<lambda>r. \<not> synced r) (records st) else [])"
proof (cases "useLocalStorage st")
  case True
  assume "getPendingMessages ok st = Inr p"
  with True show ?thesis
    by (simp add: getPendingMessages_def getLocalStorageMessages_def records_def)
next
  case False
  assume a: "getPendingMessages ok st = Inr p"
  with False have "ok"
    by (cases ok) (simp_all add: getPendingMessages_def getIndexedDBMessages_def)
  with a getPendingMessages_records [of st] show ?thesis by simp
qed

lemma uploadMessage_ok:
  "(fst (uploadMessage e m) = Inr ())
     = (mtype m = ''SOS_BROADCAST'' \<or> mtype m = ''CHAT_BROADCAST'' \<longrightarrow> remote_ok e m)"
  by (simp add: uploadMessage_def)

lemma uploadMessage_effects:
  "set (snd (uploadMessage e m)) \<subseteq> {RemoteSet (messageId m), RemotePush (messageId m)}"
  by (auto simp: uploadMessage_def split: if_splits)

lemma sync_one_succeeds:
  assumes "succeeds e m"
  shows "\<exists>st'. markAsSynced True (mark_time e m) (messageId m) (b_store b) = Inr st'
           \<and> sync_one e n m b
               = b\<lparr>b_store := st', b_synced := b_synced b + 1,
                   b_effects := b_effects b @ snd (uploadMessage e m)
                                  @ [Emit (SyncProgress (b_synced b + 1) n)]\<rparr>"
proof -
  obtain st' where st': "markAsSynced True (mark_time e m) (messageId m) (b_store b) = Inr st'"
    using markAsSynced_records [of "mark_time e m" "messageId m" "b_store b"] by blast
  from assms have mk: "mark_ok e m" by (simp add: succeeds_def)
  obtain res eff where u: "uploadMessage e m = (res, eff)" by (cases "uploadMessage e m")
  from assms u have r: "res = Inr ()"
    using uploadMessage_ok [of e m] by (simp add: succeeds_def)
  with st' mk u show ?thesis
    by (simp add: sync_one_def)
qed

lemma sync_one_fails:
  assumes "\<not> succeeds e m"
  shows "sync_one e n m b
           = b\<lparr>b_failed := b_failed b + 1,
               b_effects := b_effects b @ snd (uploadMessage e m)\<rparr>"
proof -
  obtain res eff where u: "uploadMessage e m = (res, eff)" by (cases "uploadMessage e m")
  show ?thesis
  proof (cases res)
    case (Inl err)
    with u show ?thesis by (simp add: sync_one_def)
  next
    case (Inr x)
    with u uploadMessage_ok [of e m] assms have "\<not> mark_ok e m"
      by (simp add: succeeds_def)
    with u Inr show ?thesis
      by (simp add: sync_one_def markAsSynced_fails)
  qed
qed

lemma sync_batch_counts:
  "b_synced (sync_batch e n p b) = b_synced b + length (filter (succeeds e) p)
   \<and> b_failed (sync_batch e n p b) = b_failed b + length (filter (\<lambda>m. \<not> succeeds e m) p)"
proof (induction p arbitrary: b)
  case Nil
  then show ?case by simp
next
  case (Cons m p)
  show ?case
  proof (cases "succeeds e m")
    case True
    from sync_one_succeeds [OF True, of b n] obtain st'
      where "sync_one e n m b
               = b\<lparr>b_store := st', b_synced := b_synced b + 1,
                   b_effects := b_effects b @ snd (uploadMessage e m)
                                  @ [Emit (SyncProgress (b_synced b + 1) n)]\<rparr>" by blast
    with True Cons.IH [of "sync_one e n m b"] show ?thesis by simp
  next
    case False
    with Cons.IH [of "sync_one e n m b"] sync_one_fails [OF False, of n b]
    show ?thesis by simp
  qed
qed

lemma sync_batch_effects:
  "\<exists>tr. b_effects (sync_batch e n p b) = b_effects b @ tr
        \<and> (\<forall>x \<in> set tr. x \<noteq> Emit SyncStart \<and> x \<noteq> Emit SyncError
                           \<and> (\<forall>s f. x \<noteq> Emit (SyncComplete s f)))"
proof (induction p arbitrary: b)
  case Nil
  then show ?case by simp
next
  case (Cons m p)
  from Cons.IH [of "sync_one e n m b"] obtain tr
    where tr: "b_effects (sync_batch e n p (sync_one e n m b))
                 = b_effects (sync_one e n m b) @ tr"
      and q: "\<forall>x \<in> set tr. x \<noteq> Emit SyncStart \<and> x \<noteq> Emit SyncError
                           \<and> (\<forall>s f. x \<noteq> Emit (SyncComplete s f))" by blast
  have "\<exists>t1. b_effects (sync_one e n m b) = b_effects b @ t1
          \<and> (\<forall>x \<in> set t1. x \<noteq> Emit SyncStart \<and> x \<noteq> Emit SyncError
                           \<and> (\<forall>s f. x \<noteq> Emit (SyncComplete s f)))"
  proof (cases "succeeds e m")
    case True
    from sync_one_succeeds [OF True, of b n] uploadMessage_effects [of e m]
    show ?thesis by force
  next
    case False
    from sync_one_fails [OF False, of n b] uploadMessage_effects [of e m]
    show ?thesis by force
  qed
  then obtain t1 where "b_effects (sync_one e n m b) = b_effects b @ t1"
    and "\<forall>x \<in> set t1. x \<noteq> Emit SyncStart \<and> x \<noteq> Emit SyncError
                           \<and> (\<forall>s f. x \<noteq> Emit (SyncComplete s f))" by blast
  with tr q show ?case by (intro exI [of _ "t1 @ tr"]) auto
qed

lemma mark_first_distinct:
  "distinct (map messageId rs) \<Longrightarrow> mark_first now mid rs = mark_all now mid rs"
proof (induction rs)
  case Nil
  then show ?case by (simp add: mark_all_def)
next
  case (Cons a rs)
  show ?case
  proof (cases "messageId a = mid")
    case True
    with Cons.prems have "mid \<notin> messageId ` set rs" by auto
    then have "mark_all now mid rs = rs" by (rule mark_all_absent)
    with True show ?thesis by (simp add: mark_all_def)
  next
    case False
    with Cons show ?thesis by (simp add: mark_all_def)
  qed
qed

lemma fold_marks:
  assumes "distinct (map messageId p)"
    and "\<forall>m \<in> set p. \<forall>r \<in> set rs. messageId r = messageId m \<longrightarrow> r = m"
  shows "fold (\<lambda>m rs. if ok m then mark_all (t m) (messageId m) rs else rs) p rs
           = map (\<lambda>r. if r \<in> set p \<and> ok r then mark (t r) r else r) rs"
  using assms
proof (induction p arbitrary: rs)
  case Nil
  then show ?case by simp
next
  case (Cons m p)
  let ?f = "\<lambda>m rs. if ok m then mark_all (t m) (messageId m) rs else rs"
  let ?rs1 = "?f m rs"
  from Cons.prems(1) have nm: "messageId m \<notin> messageId ` set p" and dp: "distinct (map messageId p)"
    by auto
  have idm: "\<And>x. messageId (mark x m) = messageId m" by (simp add: mark_def)
  have H2': "\<forall>m' \<in> set p. \<forall>r \<in> set ?rs1. messageId r = messageId m' \<longrightarrow> r = m'"
  proof (intro ballI impI)
    fix m' r assume m': "m' \<in> set p" and r: "r \<in> set ?rs1" and e: "messageId r = messageId m'"
    from m' nm have ne: "messageId m' \<noteq> messageId m" by (metis image_eqI)
    from r obtain r0 where r0: "r0 \<in> set rs"
      and rr: "r = r0 \<or> (messageId r0 = messageId m \<and> r = mark (t m) r0)"
      by (auto simp: mark_all_def split: if_splits)
    from rr show "r = m'"
    proof
      assume "r = r0"
      with r0 e m' Cons.prems(2) show ?thesis by simp
    next
      assume "messageId r0 = messageId m \<and> r = mark (t m) r0"
      then have "messageId r = messageId m" by (simp add: mark_def)
      with e ne show ?thesis by simp
    qed
  qed
  have "fold ?f (m # p) rs = fold ?f p ?rs1" by simp
  also have "\<dots> = map (\<lambda>r. if r \<in> set p \<and> ok r then mark (t r) r else r) ?rs1"
    by (rule Cons.IH [OF dp H2'])
  also have "\<dots> = map (\<lambda>r. if r \<in> set (m # p) \<and> ok r then mark (t r) r else r) rs"
  proof (cases "ok m")
    case True
    have "\<forall>r \<in> set rs.
            (\<lambda>r. if r \<in> set p \<and> ok r then mark (t r) r else r)
              (if messageId r = messageId m then mark (t m) r else r)
            = (if r \<in> set (m # p) \<and> ok r then mark (t r) r else r)"
    proof
      fix r assume r: "r \<in> set rs"
      show "(\<lambda>r. if r \<in> set p \<and> ok r then mark (t r) r else r)
              (if messageId r = messageId m then mark (t m) r else r)
            = (if r \<in> set (m # p) \<and> ok r then mark (t r) r else r)"
      proof (cases "messageId r = messageId m")
        case same: True
        with r Cons.prems(2) have rm: "r = m" by simp
        have "mark (t m) m \<notin> set p"
          using nm idm by (metis image_eqI)
        with rm True show ?thesis by simp
      next
        case False
        then have "r \<noteq> m" by auto
        with False show ?thesis by simp
      qed
    qed
    with True show ?thesis by (simp add: mark_all_def)
  next
    case False
    have "m \<notin> set p" using nm by (metis image_eqI)
    with False show ?thesis by (intro map_cong) auto
  qed
  finally show ?case .
qed

lemma sync_batch_fold:
  "distinct (map messageId (records (b_store b))) \<Longrightarrow>
   records (b_store (sync_batch e n p b))
     = fold (\<lambda>m rs. if succeeds e m then mark_all (mark_time e m) (messageId m) rs else rs)
         p (records (b_store b))
   \<and> useLocalStorage (b_store (sync_batch e n p b)) = useLocalStorage (b_store b)
   \<and> booleanKeys (b_store (sync_batch e n p b)) = booleanKeys (b_store b)"
proof (induction p arbitrary: b)
  case Nil
  then show ?case by simp
next
  case (Cons m p)
  let ?b1 = "sync_one e n m b"
  have one: "records (b_store ?b1)
               = (if succeeds e m
                  then mark_all (mark_time e m) (messageId m) (records (b_store b))
                  else records (b_store b))
             \<and> useLocalStorage (b_store ?b1) = useLocalStorage (b_store b)
             \<and> booleanKeys (b_store ?b1) = booleanKeys (b_store b)"
  proof (cases "succeeds e m")
    case True
    from sync_one_succeeds [OF True, of b n] obtain st'
      where m1: "markAsSynced True (mark_time e m) (messageId m) (b_store b) = Inr st'"
        and s1: "b_store ?b1 = st'" by force
    from markAsSynced_records [of "mark_time e m" "messageId m" "b_store b"] m1
    have "records st' = (if useLocalStorage (b_store b)
                         then mark_all (mark_time e m) (messageId m) (records (b_store b))
                         else mark_first (mark_time e m) (messageId m) (records (b_store b)))"
      and "useLocalStorage st' = useLocalStorage (b_store b)"
      and "booleanKeys st' = booleanKeys (b_store b)"
      by auto
    with True s1 Cons.prems show ?thesis by (simp add: mark_first_distinct)
  next
    case False
    with sync_one_fails [OF False, of n b] show ?thesis by simp
  qed
  then have "distinct (map messageId (records (b_store ?b1)))"
    using Cons.prems by (simp add: mark_all_ids)
  from Cons.IH [OF this] one show ?case by simp
qed

lemma sync_guard:
  "\<not> isOnline mgr \<or> isSyncing mgr \<Longrightarrow> syncPendingMessages e (mgr, st) = ((mgr, st), [])"
  by (auto simp: syncPendingMessages_def)

lemma sync_listing_fails:
  "isOnline mgr \<Longrightarrow> \<not> isSyncing mgr \<Longrightarrow> getPendingMessages (list_ok e) st = Inl err \<Longrightarrow>
   syncPendingMessages e (mgr, st)
     = ((mgr\<lparr>isSyncing := False\<rparr>, st), [Emit SyncStart, Emit SyncError])"
  by (simp add: syncPendingMessages_def)

lemma sync_nothing_pending:
  "isOnline mgr \<Longrightarrow> \<not> isSyncing mgr \<Longrightarrow> getPendingMessages (list_ok e) st = Inr [] \<Longrightarrow>
   syncPendingMessages e (mgr, st) = ((mgr\<lparr>isSyncing := False\<rparr>, st), [Emit SyncStart])"
  by (simp add: syncPendingMessages_def)

lemma sync_clear_ok:
  assumes "isOnline mgr" and "\<not> isSyncing mgr"
    and "getPendingMessages (list_ok e) st = Inr p" and "p \<noteq> []" and "clear_ok e"
  shows "\<exists>st'. clearSyncedMessages True (b_store (run_batch e p st)) = Inr st'
           \<and> syncPendingMessages e (mgr, st)
               = ((mgr\<lparr>isSyncing := False\<rparr>, st'),
                  b_effects (run_batch e p st)
                    @ [Emit (SyncComplete (b_synced (run_batch e p st))
                                          (b_failed (run_batch e p st)))])"
proof -
  obtain st' where "clearSyncedMessages True (b_store (run_batch e p st)) = Inr st'"
    using clearSyncedMessages_records [of "b_store (run_batch e p st)"] by blast
  with assms show ?thesis
    by (simp add: syncPendingMessages_def run_batch_def Let_def)
qed

lemma sync_clear_fails:
  assumes "isOnline mgr" and "\<not> isSyncing mgr"
    and "getPendingMessages (list_ok e) st = Inr p" and "p \<noteq> []" and "\<not> clear_ok e"
  shows "syncPendingMessages e (mgr, st)
               = ((mgr\<lparr>isSyncing := False\<rparr>, b_store (run_batch e p st)),
                  b_effects (run_batch e p st) @ [Emit SyncError])"
  using assms
  by (simp add: syncPendingMessages_def run_batch_def Let_def clearSyncedMessages_fails)

lemma run_batch_effects:
  "\<exists>tr. b_effects (run_batch e p st) = Emit SyncStart # tr
        \<and> (\<forall>x \<in> set tr. x \<noteq> Emit SyncStart \<and> x \<noteq> Emit SyncError
                           \<and> (\<forall>s f. x \<noteq> Emit (SyncComplete s f)))"
  using sync_batch_effects
    [of e "length p" p "\<lparr>b_store = st, b_synced = 0, b_failed = 0, b_effects = [Emit SyncStart]\<rparr>"]
  by (simp add: run_batch_def)

lemma run_batch_counts:
  "b_synced (run_batch e p st) = length (filter (succeeds e) p)
   \<and> b_failed (run_batch e p st) = length (filter (\<lambda>m. \<not> succeeds e m) p)"
  using sync_batch_counts
    [of e "length p" p "\<lparr>b_store = st, b_synced = 0, b_failed = 0, b_effects = [Emit SyncStart]\<rparr>"]
  by (simp add: run_batch_def)

lemma ex_pending:
  "getPendingMessages True (apply_ops ex_enqueue ex_ls)
     = Inr [ex_r 1000 ''A-1'', ex_r 2000 ''A-2'', ex_r 3000 ''A-3'']"
proof -
  have u: "useLocalStorage (apply_ops ex_enqueue ex_ls)"
    using apply_ops_flags [of ex_enqueue ex_ls] by (simp add: ex_ls_def init_def)
  then show ?thesis
    by (simp add: getPendingMessages_records ex_ls_records)
      (simp add: ex_r_def new_record_def)
qed

lemma ex_succeeds:
  "succeeds ex_env (ex_r 1000 ''A-1'') \<and> \<not> succeeds ex_env (ex_r 2000 ''A-2'')
   \<and> succeeds ex_env (ex_r 3000 ''A-3'')"
  by (simp add: succeeds_def ex_env_def ex_r_def new_record_def ex_m_def)

lemma filter_eq_single:
  "distinct rs \<Longrightarrow> x \<in> set rs \<Longrightarrow> filter (\<lambda>r. r = x) rs = [x]"
  by (induction rs) (auto simp: filter_empty_conv)

lemma length_filter_neq:
  "distinct p \<Longrightarrow> x \<in> set p \<Longrightarrow>
   length (filter (\<lambda>m. m \<noteq> x) p) = length p - 1 \<and> length (filter (\<lambda>m. \<not> m \<noteq> x) p) = 1"
proof -
  assume d: "distinct p" and x: "x \<in> set p"
  have a: "filter (\<lambda>m. \<not> m \<noteq> x) p = [x]" using filter_eq_single [OF d x] by simp
  have "length (filter (\<lambda>m. m \<noteq> x) p) + length (filter (\<lambda>m. \<not> m \<noteq> x) p) = length p"
    using sum_length_filter_compl [of "\<lambda>m. m \<noteq> x" p] by simp
  with a show ?thesis by simp
qed

section \<open>The sync pass: one failing record, and how a pass ends\<close>

text \<open>
  C3, as stated, fails: three pending records, the upload of the second one fails.
  After the pass the second record is the only one left and its \<open>retryCount\<close> is
  still 0: the \<open>catch\<close> of the loop counts the failure in a local variable and
  writes nothing to the record.
\<close>

theorem sync_pass_one_failure_counterexample:
  "getPendingMessages True (apply_ops ex_enqueue ex_ls)
     = Inr [ex_r 1000 ''A-1'', ex_r 2000 ''A-2'', ex_r 3000 ''A-3'']
   \<and> \<not> succeeds ex_env (ex_r 2000 ''A-2'')
   \<and> map messageId
        (records (snd (fst (syncPendingMessages ex_env (ex_mgr, apply_ops ex_enqueue ex_ls)))))
       = [''A-2'']
   \<and> map retryCount
        (records (snd (fst (syncPendingMessages ex_env (ex_mgr, apply_ops ex_enqueue ex_ls)))))
       = [0]"
proof -
  have st: "apply_ops ex_enqueue ex_ls
              = \<lparr>useLocalStorage = True, booleanKeys = False,
                 localStorage = [ex_r 1000 ''A-1'', ex_r 2000 ''A-2'', ex_r 3000 ''A-3''],
                 objectStore = Map.empty, keyGenerator = 0\<rparr>"
    by (simp add: ex_enqueue_def ex_ls_def init_def new_storage_def storeMessage_def
        storeInLocalStorage_def getLocalStorageMessages_def ex_r_def Let_def)
  have r: "records (snd (fst (syncPendingMessages ex_env (ex_mgr, apply_ops ex_enqueue ex_ls))))
             = [ex_r 2000 ''A-2'']"
    unfolding st
    by (simp add: syncPendingMessages_def ex_mgr_def ex_env_def getPendingMessages_def
        getLocalStorageMessages_def sync_one_def uploadMessage_def markAsSynced_def
        markSyncedInLocalStorage_def clearSyncedMessages_def records_def
        ex_r_def new_record_def ex_m_def Let_def)
  have z: "messageId (ex_r 2000 ''A-2'') = ''A-2'' \<and> retryCount (ex_r 2000 ''A-2'') = 0"
    by (simp add: ex_r_def new_record_def ex_m_def)
  from ex_pending ex_succeeds r z show ?thesis by simp
qed

text \<open>
  C3, amended: in a pass over the pending records of an outbox whose message ids
  are distinct, in which handling one record fails and handling every other one
  succeeds, the loop goes on past the failure: when it ends every other pending
  record is marked as synced and the failing record is unchanged, still pending and
  with the \<open>retryCount\<close> it had; the compaction that ends the pass removes exactly
  the synced records, so the failing record is all that is left; and
  \<open>sync_complete\<close> reports all but one as synced and one as failed.
\<close>

theorem sync_pass_one_failure:
  assumes on: "isOnline mgr" and idle: "\<not> isSyncing mgr"
    and D: "distinct (map messageId (records st))"
    and P: "getPendingMessages (list_ok e) st = Inr p"
    and B: "bad \<in> set p"
    and S: "\<forall>m \<in> set p. succeeds e m = (m \<noteq> bad)"
    and C: "clear_ok e"
  shows "records (b_store (run_batch e p st))
           = map (\<lambda>r. if r \<in> set p \<and> r \<noteq> bad
                      then r\<lparr>synced := True, syncedAt := Some (mark_time e r)\<rparr> else r)
               (records st)
         \<and> records (snd (fst (syncPendingMessages e (mgr, st))))
             = filter (\<lambda>r. \<not> synced r) (records (b_store (run_batch e p st)))
         \<and> records (snd (fst (syncPendingMessages e (mgr, st)))) = [bad]
         \<and> last (snd (syncPendingMessages e (mgr, st))) = Emit (SyncComplete (length p - 1) 1)"
proof -
  let ?rs = "records st"
  let ?b = "run_batch e p st"
  let ?g = "\<lambda>r. if r \<in> set p \<and> r \<noteq> bad
                then r\<lparr>synced := True, syncedAt := Some (mark_time e r)\<rparr> else r"
  from B have ne: "p \<noteq> []" by auto
  from getPendingMessages_Inr [OF P] ne
  have mode: "useLocalStorage st \<or> booleanKeys st"
    and p: "p = filter (\<lambda>r. \<not> synced r) ?rs" by (auto split: if_splits)
  from D have drs: "distinct ?rs" by (rule distinct_map [THEN iffD1, THEN conjunct1])
  from D p have H1: "distinct (map messageId p)" by (simp add: distinct_map_filter)
  have H2: "\<forall>m \<in> set p. \<forall>r \<in> set ?rs. messageId r = messageId m \<longrightarrow> r = m"
    using D p by (auto simp: distinct_map inj_on_def)
  have fold: "records (b_store ?b)
                = fold (\<lambda>m rs. if succeeds e m
                                then mark_all (mark_time e m) (messageId m) rs else rs)
                    p ?rs"
    and flags: "useLocalStorage (b_store ?b) = useLocalStorage st"
               "booleanKeys (b_store ?b) = booleanKeys st"
    using sync_batch_fold
      [of "\<lparr>b_store = st, b_synced = 0, b_failed = 0, b_effects = [Emit SyncStart]\<rparr>"
          e "length p" p] D
    by (simp_all add: run_batch_def)
  have "records (b_store ?b)
          = map (\<lambda>r. if r \<in> set p \<and> succeeds e r then mark (mark_time e r) r else r) ?rs"
    unfolding fold by (rule fold_marks [OF H1 H2])
  also have "\<dots> = map ?g ?rs"
    using S by (intro map_cong) (auto simp: mark_def)
  finally have a: "records (b_store ?b) = map ?g ?rs" .
  from sync_clear_ok [OF on idle P ne C] obtain st'
    where cl: "clearSyncedMessages True (b_store ?b) = Inr st'"
      and sy: "syncPendingMessages e (mgr, st)
               = ((mgr\<lparr>isSyncing := False\<rparr>, st'),
                  b_effects ?b @ [Emit (SyncComplete (b_synced ?b) (b_failed ?b))])" by blast
  from clearSyncedMessages_records [of "b_store ?b"] cl flags mode
  have b0: "records st' = filter (\<lambda>r. \<not> synced r) (records (b_store ?b))" by auto
  have nb: "\<not> synced bad" using B by (simp add: p)
  have "filter (\<lambda>r. \<not> synced r) (map ?g ?rs) = map ?g (filter (\<lambda>r. r = bad) ?rs)"
    unfolding filter_map using nb
    by (intro arg_cong [where f = "map ?g"] filter_cong) (auto simp: p comp_def)
  also have "\<dots> = [bad]"
    using B p drs by (simp add: filter_eq_single)
  finally have c0: "filter (\<lambda>r. \<not> synced r) (map ?g ?rs) = [bad]" .
  from p drs have dp: "distinct p" by simp
  have cnt: "b_synced ?b = length p - 1 \<and> b_failed ?b = 1"
  proof -
    have "filter (succeeds e) p = filter (\<lambda>m. m \<noteq> bad) p"
      using S by (intro filter_cong) auto
    moreover have "filter (\<lambda>m. \<not> succeeds e m) p = filter (\<lambda>m. \<not> m \<noteq> bad) p"
      using S by (intro filter_cong) auto
    ultimately show ?thesis
      using run_batch_counts [of e p st] length_filter_neq [OF dp B] by simp
  qed
  from a b0 c0 cnt sy show ?thesis by simp
qed

theorem sync_pass_one_failure_witness:
  "isOnline ex_mgr \<and> \<not> isSyncing ex_mgr
   \<and> distinct (map messageId (records (apply_ops ex_enqueue ex_ls)))
   \<and> getPendingMessages (list_ok ex_env) (apply_ops ex_enqueue ex_ls)
       = Inr [ex_r 1000 ''A-1'', ex_r 2000 ''A-2'', ex_r 3000 ''A-3'']
   \<and> succeeds ex_env (ex_r 1000 ''A-1'') \<and> \<not> succeeds ex_env (ex_r 2000 ''A-2'')
   \<and> succeeds ex_env (ex_r 3000 ''A-3'')
   \<and> clear_ok ex_env
   \<and> records (snd (fst (syncPendingMessages ex_env (ex_mgr, apply_ops ex_enqueue ex_ls))))
       = [ex_r 2000 ''A-2'']
   \<and> last (snd (syncPendingMessages ex_env (ex_mgr, apply_ops ex_enqueue ex_ls)))
       = Emit (SyncComplete 2 1)"
proof -
  let ?p = "[ex_r 1000 ''A-1'', ex_r 2000 ''A-2'', ex_r 3000 ''A-3'']"
  have on: "isOnline ex_mgr" and idle: "\<not> isSyncing ex_mgr"
    by (simp_all add: ex_mgr_def)
  have l: "list_ok ex_env" and c: "clear_ok ex_env"
    by (simp_all add: ex_env_def)
  have d: "distinct (map messageId (records (apply_ops ex_enqueue ex_ls)))"
    by (simp add: ex_ls_records) (simp add: ex_r_def new_record_def ex_m_def)
  have p: "getPendingMessages (list_ok ex_env) (apply_ops ex_enqueue ex_ls) = Inr ?p"
    using l ex_pending by simp
  have b: "ex_r 2000 ''A-2'' \<in> set ?p" by simp
  have ne: "ex_r 1000 ''A-1'' \<noteq> ex_r 2000 ''A-2'' \<and> ex_r 3000 ''A-3'' \<noteq> ex_r 2000 ''A-2''"
    by (simp add: ex_r_def new_record_def)
  have s: "\<forall>m \<in> set ?p. succeeds ex_env m = (m \<noteq> ex_r 2000 ''A-2'')"
    using ex_succeeds ne by simp
  have r: "records (snd (fst (syncPendingMessages ex_env (ex_mgr, apply_ops ex_enqueue ex_ls))))
       = [ex_r 2000 ''A-2'']"
    using sync_pass_one_failure [OF on idle d p b s c] by blast
  have "last (snd (syncPendingMessages ex_env (ex_mgr, apply_ops ex_enqueue ex_ls)))
       = Emit (SyncComplete (length ?p - 1) 1)"
    using sync_pass_one_failure [OF on idle d p b s c] by blast
  then have e: "last (snd (syncPendingMessages ex_env (ex_mgr, apply_ops ex_enqueue ex_ls)))
       = Emit (SyncComplete 2 1)" by simp
  from on idle d p c ex_succeeds r e show ?thesis by blast
qed

text \<open>
  C4, as stated, fails: on an empty outbox the pass emits \<open>sync_start\<close> and returns
  at once; there is no compaction, no \<open>sync_complete\<close> and no \<open>sync_error\<close>.
\<close>

theorem sync_pass_ends_counterexample:
  "isOnline ex_mgr \<and> \<not> isSyncing ex_mgr
   \<and> snd (syncPendingMessages ex_env (ex_mgr, ex_ls)) = [Emit SyncStart]"
  by (simp add: syncPendingMessages_def ex_mgr_def ex_ls_def init_def new_storage_def
      getPendingMessages_def getLocalStorageMessages_def ex_env_def)

text \<open>
  C4, amended: a pass that starts (the manager is online and idle) emits
  \<open>sync_start\<close> first and leaves \<open>isSyncing\<close> cleared however it ends. When the
  listing fails it emits \<open>sync_error\<close> and the store is untouched; when nothing is
  pending it emits nothing more and the store is untouched; when records are
  pending and the clearing succeeds, the final store is what \<open>clearSyncedMessages\<close>
  makes of the store the loop left, the last event is \<open>sync_complete\<close> with the
  numbers of records handled with and without success, and no \<open>sync_error\<close> is
  emitted; when the clearing fails, the last event is \<open>sync_error\<close> and no
  \<open>sync_complete\<close> is emitted.
\<close>

theorem sync_pass_ends:
  assumes on: "isOnline mgr" and idle: "\<not> isSyncing mgr"
  shows "\<not> isSyncing (fst (fst (syncPendingMessages e (mgr, st))))
        \<and> hd (snd (syncPendingMessages e (mgr, st))) = Emit SyncStart
        \<and> (\<forall>err. getPendingMessages (list_ok e) st = Inl err \<longrightarrow>
              snd (fst (syncPendingMessages e (mgr, st))) = st
              \<and> snd (syncPendingMessages e (mgr, st)) = [Emit SyncStart, Emit SyncError])
        \<and> (getPendingMessages (list_ok e) st = Inr [] \<longrightarrow>
              snd (fst (syncPendingMessages e (mgr, st))) = st
              \<and> snd (syncPendingMessages e (mgr, st)) = [Emit SyncStart])
        \<and> (\<forall>p. getPendingMessages (list_ok e) st = Inr p \<and> p \<noteq> [] \<and> clear_ok e \<longrightarrow>
              clearSyncedMessages True (b_store (run_batch e p st))
                = Inr (snd (fst (syncPendingMessages e (mgr, st))))
              \<and> last (snd (syncPendingMessages e (mgr, st)))
                  = Emit (SyncComplete (length (filter (succeeds e) p))
                                        (length (filter (\<lambda>m. \<not> succeeds e m) p)))
              \<and> Emit SyncError \<notin> set (snd (syncPendingMessages e (mgr, st))))
        \<and> (\<forall>p. getPendingMessages (list_ok e) st = Inr p \<and> p \<noteq> [] \<and> \<not> clear_ok e \<longrightarrow>
              snd (fst (syncPendingMessages e (mgr, st))) = b_store (run_batch e p st)
              \<and> last (snd (syncPendingMessages e (mgr, st))) = Emit SyncError
              \<and> (\<forall>s f. Emit (SyncComplete s f) \<notin> set (snd (syncPendingMessages e (mgr, st)))))"
proof (cases "getPendingMessages (list_ok e) st")
  case (Inl err)
  with sync_listing_fails [OF on idle Inl] show ?thesis by simp
next
  case (Inr p)
  show ?thesis
  proof (cases "p = []")
    case True
    with Inr sync_nothing_pending [OF on idle, of e st] show ?thesis by simp
  next
    case ne: False
    obtain tr where tr: "b_effects (run_batch e p st) = Emit SyncStart # tr"
      and q: "\<forall>x \<in> set tr. x \<noteq> Emit SyncStart \<and> x \<noteq> Emit SyncError
                       \<and> (\<forall>s f. x \<noteq> Emit (SyncComplete s f))"
      using run_batch_effects [of e p st] by blast
    show ?thesis
    proof (cases "clear_ok e")
      case True
      from sync_clear_ok [OF on idle Inr ne True] obtain st'
        where "clearSyncedMessages True (b_store (run_batch e p st)) = Inr st'"
          and "syncPendingMessages e (mgr, st)
           = ((mgr\<lparr>isSyncing := False\<rparr>, st'),
              b_effects (run_batch e p st)
                @ [Emit (SyncComplete (b_synced (run_batch e p st))
                                      (b_failed (run_batch e p st)))])" by blast
      with Inr ne True tr q run_batch_counts [of e p st] show ?thesis by auto
    next
      case False
      with sync_clear_fails [OF on idle Inr ne False] Inr ne tr q show ?thesis by auto
    qed
  qed
qed

theorem sync_pass_ends_witness:
  "isOnline ex_mgr \<and> \<not> isSyncing ex_mgr
   \<and> getPendingMessages (list_ok ex_env) (apply_ops ex_enqueue ex_ls)
       = Inr [ex_r 1000 ''A-1'', ex_r 2000 ''A-2'', ex_r 3000 ''A-3'']
   \<and> clear_ok ex_env
   \<and> \<not> isSyncing (fst (fst (syncPendingMessages ex_env (ex_mgr, apply_ops ex_enqueue ex_ls))))
   \<and> last (snd (syncPendingMessages ex_env (ex_mgr, apply_ops ex_enqueue ex_ls)))
       = Emit (SyncComplete 2 1)"
proof -
  have on: "isOnline ex_mgr" and idle: "\<not> isSyncing ex_mgr"
    by (simp_all add: ex_mgr_def)
  have l: "list_ok ex_env" and c: "clear_ok ex_env"
    by (simp_all add: ex_env_def)
  have p: "getPendingMessages (list_ok ex_env) (apply_ops ex_enqueue ex_ls)
       = Inr [ex_r 1000 ''A-1'', ex_r 2000 ''A-2'', ex_r 3000 ''A-3'']"
    using l ex_pending by simp
  have n: "length (filter (succeeds ex_env)
             [ex_r 1000 ''A-1'', ex_r 2000 ''A-2'', ex_r 3000 ''A-3'']) = 2
     \<and> length (filter (\<lambda>m. \<not> succeeds ex_env m)
             [ex_r 1000 ''A-1'', ex_r 2000 ''A-2'', ex_r 3000 ''A-3'']) = 1"
    using ex_succeeds by simp
  from sync_pass_ends [OF on idle, of ex_env "apply_ops ex_enqueue ex_ls"] p c
  have "last (snd (syncPendingMessages ex_env (ex_mgr, apply_ops ex_enqueue ex_ls)))
       = Emit (SyncComplete
           (length (filter (succeeds ex_env)
             [ex_r 1000 ''A-1'', ex_r 2000 ''A-2'', ex_r 3000 ''A-3'']))
           (length (filter (\<lambda>m. \<not> succeeds ex_env m)
             [ex_r 1000 ''A-1'', ex_r 2000 ''A-2'', ex_r 3000 ''A-3''])))"
    by blast
  with n have e: "last (snd (syncPendingMessages ex_env (ex_mgr, apply_ops ex_enqueue ex_ls)))
       = Emit (SyncComplete 2 1)" by simp
  from sync_pass_ends [OF on idle, of ex_env "apply_ops ex_enqueue ex_ls"] on idle p c e
  show ?thesis by blast
qed

section \<open>The dispatcher: attempts, waits and the result\<close>

lemma attempts_stop:
  assumes "0 < retries" and "reply k \<noteq> ErrorReply 429"
  shows "attempts reply parse retries delay k = (outcome parse (reply k), [Fetch])"
proof (cases "reply k")
  case Throws
  with assms show ?thesis
    by (subst attempts.simps) simp
next
  case (ErrorReply code)
  with assms show ?thesis
    by (subst attempts.simps) simp
next
  case (TextReply textResponse)
  with assms show ?thesis
    by (subst attempts.simps) simp
qed

lemma attempts_retry:
  "0 < retries \<Longrightarrow> reply k = ErrorReply 429 \<Longrightarrow>
   attempts reply parse retries delay k
     = (fst (attempts reply parse (retries - 1) (delay * 2) (Suc k)),
        Fetch # Sleep delay # snd (attempts reply parse (retries - 1) (delay * 2) (Suc k)))"
  by (simp add: attempts.simps [of reply parse retries delay k] split: prod.splits)

lemma attempts_none_left:
  "retries \<le> 0 \<Longrightarrow> attempts reply parse retries delay k = (None, [])"
  by (simp add: attempts.simps [of reply parse retries delay k])

lemma attempts_run:
  "\<forall>i < n. reply (k + i) = ErrorReply 429 \<Longrightarrow> int n < retries \<Longrightarrow>
   reply (k + n) \<noteq> ErrorReply 429 \<Longrightarrow>
   attempts reply parse retries delay k
     = (outcome parse (reply (k + n)), backoff delay n @ [Fetch])"
proof (induction n arbitrary: retries delay k)
  case 0
  then show ?case by (simp add: attempts_stop)
next
  case (Suc n)
  from Suc.prems have pos: "0 < retries" and first: "reply k = ErrorReply 429"
    by auto
  have a: "\<forall>i < n. reply (Suc k + i) = ErrorReply 429"
    using Suc.prems(1) by auto
  have b: "int n < retries - 1" using Suc.prems(2) by simp
  have c: "reply (Suc k + n) \<noteq> ErrorReply 429" using Suc.prems(3) by simp
  have "attempts reply parse retries delay k
     = (fst (attempts reply parse (retries - 1) (delay * 2) (Suc k)),
        Fetch # Sleep delay # snd (attempts reply parse (retries - 1) (delay * 2) (Suc k)))"
    using pos first by (rule attempts_retry)
  with Suc.IH [OF a b c, of "delay * 2"] show ?case by simp
qed

lemma attempts_exhaust:
  "\<forall>i < n. reply (k + i) = ErrorReply 429 \<Longrightarrow> retries = int n \<Longrightarrow>
   attempts reply parse retries delay k = (None, backoff delay n)"
proof (induction n arbitrary: retries delay k)
  case 0
  then show ?case by (simp add: attempts_none_left)
next
  case (Suc n)
  from Suc.prems have pos: "0 < retries" and first: "reply k = ErrorReply 429"
    by auto
  have a: "\<forall>i < n. reply (Suc k + i) = ErrorReply 429"
    using Suc.prems(1) by auto
  have b: "retries - 1 = int n" using Suc.prems(2) by simp
  have "attempts reply parse retries delay k
     = (fst (attempts reply parse (retries - 1) (delay * 2) (Suc k)),
        Fetch # Sleep delay # snd (attempts reply parse (retries - 1) (delay * 2) (Suc k)))"
    using pos first by (rule attempts_retry)
  with Suc.IH [OF a b, of "delay * 2"] show ?case by simp
qed

lemma fetches_backoff: "fetches (backoff delay n) = n"
  by (induction n arbitrary: delay) (simp_all add: fetches_def)

lemma fetches_bound:
  "0 \<le> retries \<Longrightarrow> fetches (snd (attempts reply parse retries delay k)) \<le> nat retries"
proof (induction reply parse retries delay k rule: attempts.induct)
  case (1 reply parse retries delay k)
  show ?case
  proof (cases "0 < retries")
    case False
    then show ?thesis by (simp add: attempts_none_left fetches_def)
  next
    case pos: True
    show ?thesis
    proof (cases "reply k = ErrorReply 429")
      case True
      have "fetches (snd (attempts reply parse (retries - 1) (delay * 2) (Suc k)))
              \<le> nat (retries - 1)"
        using "1.IH" [OF pos True] pos by simp
      moreover have "attempts reply parse retries delay k
         = (fst (attempts reply parse (retries - 1) (delay * 2) (Suc k)),
            Fetch # Sleep delay # snd (attempts reply parse (retries - 1) (delay * 2) (Suc k)))"
        using pos True by (rule attempts_retry)
      ultimately show ?thesis using pos
        by (simp add: fetches_def)
    next
      case False
      with pos have "attempts reply parse retries delay k = (outcome parse (reply k), [Fetch])"
        by (rule attempts_stop)
      with pos show ?thesis by (simp add: fetches_def)
    qed
  qed
qed

lemma processQueue_next:
  assumes "\<not> isProcessingQueue d" and "requestQueue d \<noteq> []"
  shows "processQueue reply parse d =
          (d\<lparr>requestQueue := tl (requestQueue d), isProcessingQueue := True\<rparr>,
           (case sosData (hd (requestQueue d)) of
              None \<Rightarrow> []
            | Some x \<Rightarrow> map Request (snd (attempts reply parse 3 2000 0)))
           @ [Resolve (promise (hd (requestQueue d)))
                (case sosData (hd (requestQueue d)) of
                   None \<Rightarrow> None
                 | Some x \<Rightarrow> fst (attempts reply parse 3 2000 0)),
              SetTimeout 4000])"
  using assms
  by (simp add: processQueue_def performGeminiRequest_def Let_def
      split: option.splits prod.splits)

text \<open>
  C9. A request makes at most three fetches. As long as the attempts so far met a
  rate limit (code 429), each was followed by a wait, 2000 ms the first and twice
  the one before each next, and then by the next attempt; the first attempt that
  meets anything else ends the request without a further fetch, with the parsed
  reply or, for an exception or another error reply, with \<open>null\<close>; three rate
  limits end it with \<open>null\<close>. \<open>processQueue\<close> resolves the caller's promise with
  that result (with \<open>null\<close> too when the request itself rejects), sets the timer
  of 4000 ms, and has no other way to settle the promise.
\<close>

theorem dispatcher_retries_on_rate_limit_only:
  "fetches (snd (attempts reply parse 3 2000 0)) \<le> 3
   \<and> (\<forall>n < 3. (\<forall>i < n. reply i = ErrorReply 429) \<and> reply n \<noteq> ErrorReply 429 \<longrightarrow>
        attempts reply parse 3 2000 0 = (outcome parse (reply n), backoff 2000 n @ [Fetch]))
   \<and> ((\<forall>i < 3. reply i = ErrorReply 429) \<longrightarrow>
        attempts reply parse 3 2000 0
          = (None, [Fetch, Sleep 2000, Fetch, Sleep 4000, Fetch, Sleep 8000]))
   \<and> (reply 0 = Throws \<or> (\<exists>code. code \<noteq> 429 \<and> reply 0 = ErrorReply code) \<longrightarrow>
        attempts reply parse 3 2000 0 = (None, [Fetch]))
   \<and> (\<not> isProcessingQueue d \<and> requestQueue d \<noteq> [] \<longrightarrow>
        processQueue reply parse d =
          (d\<lparr>requestQueue := tl (requestQueue d), isProcessingQueue := True\<rparr>,
           (case sosData (hd (requestQueue d)) of
              None \<Rightarrow> []
            | Some x \<Rightarrow> map Request (snd (attempts reply parse 3 2000 0)))
           @ [Resolve (promise (hd (requestQueue d)))
                (case sosData (hd (requestQueue d)) of
                   None \<Rightarrow> None
                 | Some x \<Rightarrow> fst (attempts reply parse 3 2000 0)),
              SetTimeout 4000]))"
proof -
  have a: "fetches (snd (attempts reply parse 3 2000 0)) \<le> 3"
    using fetches_bound [of 3 reply parse 2000 0] by simp
  have b: "\<forall>n < 3. (\<forall>i < n. reply i = ErrorReply 429) \<and> reply n \<noteq> ErrorReply 429 \<longrightarrow>
        attempts reply parse 3 2000 0 = (outcome parse (reply n), backoff 2000 n @ [Fetch])"
  proof (intro allI impI)
    fix n :: nat
    assume n: "n < 3" and h: "(\<forall>i < n. reply i = ErrorReply 429) \<and> reply n \<noteq> ErrorReply 429"
    from h have h1: "\<forall>i < n. reply (0 + i) = ErrorReply 429"
      and h3: "reply (0 + n) \<noteq> ErrorReply 429" by simp_all
    from n have h2: "int n < 3" by simp
    have "attempts reply parse 3 2000 0
            = (outcome parse (reply (0 + n)), backoff 2000 n @ [Fetch])"
      using h1 h2 h3 by (rule attempts_run)
    then show "attempts reply parse 3 2000 0
                 = (outcome parse (reply n), backoff 2000 n @ [Fetch])"
      by simp
  qed
  have c: "(\<forall>i < 3. reply i = ErrorReply 429) \<longrightarrow>
        attempts reply parse 3 2000 0
          = (None, [Fetch, Sleep 2000, Fetch, Sleep 4000, Fetch, Sleep 8000])"
  proof
    assume "\<forall>i < 3. reply i = ErrorReply 429"
    then have h1: "\<forall>i < 3. reply (0 + i) = ErrorReply 429" by simp
    have h2: "(3::int) = int 3" by simp
    have "backoff 2000 3 = [Fetch, Sleep 2000, Fetch, Sleep 4000, Fetch, Sleep 8000]"
      by (simp add: numeral_3_eq_3)
    moreover have "attempts reply parse 3 2000 0 = (None, backoff 2000 3)"
      using h1 h2 by (rule attempts_exhaust)
    ultimately show "attempts reply parse 3 2000 0
          = (None, [Fetch, Sleep 2000, Fetch, Sleep 4000, Fetch, Sleep 8000])"
      by simp
  qed
  have e: "reply 0 = Throws \<or> (\<exists>code. code \<noteq> 429 \<and> reply 0 = ErrorReply code) \<longrightarrow>
        attempts reply parse 3 2000 0 = (None, [Fetch])"
  proof
    assume h: "reply 0 = Throws \<or> (\<exists>code. code \<noteq> 429 \<and> reply 0 = ErrorReply code)"
    then have ne: "reply 0 \<noteq> ErrorReply 429" by auto
    have "attempts reply parse 3 2000 0 = (outcome parse (reply 0), [Fetch])"
      using ne by (intro attempts_stop) simp_all
    with h show "attempts reply parse 3 2000 0 = (None, [Fetch])" by auto
  qed
  have f: "\<not> isProcessingQueue d \<and> requestQueue d \<noteq> [] \<longrightarrow>
        processQueue reply parse d =
          (d\<lparr>requestQueue := tl (requestQueue d), isProcessingQueue := True\<rparr>,
           (case sosData (hd (requestQueue d)) of
              None \<Rightarrow> []
            | Some x \<Rightarrow> map Request (snd (attempts reply parse 3 2000 0)))
           @ [Resolve (promise (hd (requestQueue d)))
                (case sosData (hd (requestQueue d)) of
                   None \<Rightarrow> None
                 | Some x \<Rightarrow> fst (attempts reply parse 3 2000 0)),
              SetTimeout 4000])"
    using processQueue_next by blast
  from a b c e f show ?thesis by blast
qed

theorem dispatcher_retries_on_rate_limit_only_witness:
  "\<not> isProcessingQueue ex_dispatcher \<and> requestQueue ex_dispatcher \<noteq> []
   \<and> ex_limited 0 = ErrorReply 429 \<and> ex_limited 1 = ErrorReply 429
   \<and> ex_limited 2 = ErrorReply 429
   \<and> snd (processQueue ex_limited ex_parse ex_dispatcher)
       = [Request Fetch, Request (Sleep 2000), Request Fetch, Request (Sleep 4000),
          Request Fetch, Request (Sleep 8000), Resolve 1 None, SetTimeout 4000]
   \<and> ex_broken 0 = ErrorReply 500
   \<and> snd (processQueue ex_broken ex_parse ex_dispatcher)
       = [Request Fetch, Resolve 1 None, SetTimeout 4000]"
proof -
  have q: "\<not> isProcessingQueue ex_dispatcher \<and> requestQueue ex_dispatcher \<noteq> []"
    by (simp add: ex_dispatcher_def)
  have j: "sosData (hd (requestQueue ex_dispatcher)) = Some ''sos''
           \<and> promise (hd (requestQueue ex_dispatcher)) = 1"
    by (simp add: ex_dispatcher_def)
  have l: "\<forall>i < 3. ex_limited i = ErrorReply 429" by (simp add: ex_limited_def)
  have b: "ex_broken 0 = Throws \<or> (\<exists>code. code \<noteq> 429 \<and> ex_broken 0 = ErrorReply code)"
    by (simp add: ex_broken_def)
  have al: "attempts ex_limited ex_parse 3 2000 0
          = (None, [Fetch, Sleep 2000, Fetch, Sleep 4000, Fetch, Sleep 8000])"
    using dispatcher_retries_on_rate_limit_only [of ex_limited ex_parse ex_dispatcher] l
    by blast
  have ab: "attempts ex_broken ex_parse 3 2000 0 = (None, [Fetch])"
    using dispatcher_retries_on_rate_limit_only [of ex_broken ex_parse ex_dispatcher] b
    by blast
  have pl: "snd (processQueue ex_limited ex_parse ex_dispatcher)
       = [Request Fetch, Request (Sleep 2000), Request Fetch, Request (Sleep 4000),
          Request Fetch, Request (Sleep 8000), Resolve 1 None, SetTimeout 4000]"
    using dispatcher_retries_on_rate_limit_only [of ex_limited ex_parse ex_dispatcher] q
    by (simp add: j al)
  have pb: "snd (processQueue ex_broken ex_parse ex_dispatcher)
       = [Request Fetch, Resolve 1 None, SetTimeout 4000]"
    using dispatcher_retries_on_rate_limit_only [of ex_broken ex_parse ex_dispatcher] q
    by (simp add: j ab)
  from q l pl pb show ?thesis by (simp add: ex_limited_def ex_broken_def)
qed

end
